theory Spec2Isabelle
  imports Complex_Main "HOL-Library.AList"
begin

section \<open>Data model of \<open>src/game.py\<close>\<close>

text \<open>
  The game keeps its whole state in one session object (Streamlit's
  \<open>st.session_state\<close>); every operation below takes the session and returns the
  updated one. Python dictionaries are association lists read with \<open>map_of\<close> and
  written with \<open>AList.update\<close> (an existing key keeps its place, a new key goes to
  the end, as in a Python dict); \<open>del d[k]\<close> is \<open>AList.delete\<close>.

  Python floats are modelled by real numbers (rounding is not modelled); the
  non-finite floats that the library calls can produce from finite arguments are the
  three extra constructors of \<open>pyfloat\<close>. Python integers are \<open>int\<close>.
  A raised exception is the \<open>Inl\<close> of a sum type.
\<close>

datatype py_error = KeyError string | ValueError


text \<open>The dataclass \<open>SimpleProduct\<close>. Display texts are transliterated to ASCII.\<close>

record SimpleProduct =
  ident :: string
  name :: string
  icon :: string
  price :: real
  cost :: real
  current_stock :: int
  daily_demand :: int
  lead_time :: int
  order_interval :: int

text \<open>A pending order: the dictionary with keys \<open>quantity\<close>, \<open>days_remaining\<close>, \<open>cost\<close>.\<close>

record pending_order =
  quantity :: int
  days_remaining :: int
  order_cost :: real

text \<open>One product's line in a daily report, and one stock-out event.\<close>

record sale_entry =
  demand :: int
  sales :: int
  revenue :: real
  profit :: real
  stock_after :: int

record stockout =
  so_product :: string
  shortage :: int
  lost_revenue :: real

record report =
  r_day :: int
  r_sales :: "(string \<times> sale_entry) list"
  r_total_revenue :: real
  r_total_cost :: real
  r_profit :: real
  r_stockouts :: "stockout list"
  r_cash :: real
  r_score_today :: real

text \<open>
  The session fields the inventory engine reads or writes. The wizard's navigation
  fields (\<open>current_step\<close>, \<open>step_completed\<close>, the system suggestions) carry no
  engine state and are left out.
\<close>

record session =
  day :: int
  cash :: real
  total_revenue :: real
  total_profit :: real
  products :: "(string \<times> SimpleProduct) list"
  sales_history :: "(string \<times> int list) list"
  pending_orders :: "(string \<times> pending_order) list"
  daily_reports :: "report list"
  player_predictions :: "(string \<times> real) list"
  player_orders :: "(string \<times> int) list"
  player_service_levels :: "(string \<times> real) list"
  order_submitted :: bool
  simulation_run :: bool
  score :: real

section \<open>Session set-up\<close>

definition create_products :: "(string \<times> SimpleProduct) list" where
  "create_products =
    [(''WATER'', \<lparr>ident = ''WATER'', name = ''mineral water'', icon = ''water'',
        price = 3, cost = 1, current_stock = 120, daily_demand = 30,
        lead_time = 3, order_interval = 3\<rparr>),
     (''BREAD'', \<lparr>ident = ''BREAD'', name = ''bread'', icon = ''bread'',
        price = 8, cost = 4, current_stock = 60, daily_demand = 20,
        lead_time = 5, order_interval = 5\<rparr>),
     (''MILK'', \<lparr>ident = ''MILK'', name = ''milk'', icon = ''milk'',
        price = 12, cost = 7, current_stock = 50, daily_demand = 15,
        lead_time = 2, order_interval = 5\<rparr>)]"

definition create_sales_history :: "(string \<times> int list) list" where
  "create_sales_history =
    [(''WATER'', [28, 32, 30, 35, 29, 31, 33]),
     (''BREAD'', [12, 28, 15, 35, 10, 30, 25]),
     (''MILK'', [14, 16, 15, 13, 17, 15, 16])]"

definition initialize_game :: session where
  "initialize_game =
    \<lparr>day = 1, cash = 10000, total_revenue = 0, total_profit = 0,
     products = create_products, sales_history = create_sales_history,
     pending_orders = [], daily_reports = [],
     player_predictions = [], player_orders = [], player_service_levels = [],
     order_submitted = False, simulation_run = False, score = 0\<rparr>"

section \<open>Float arithmetic with the non-finite values\<close>






text \<open>\<open>int(x)\<close> on a finite float truncates toward zero.\<close>

definition py_int :: "real \<Rightarrow> int" where
  "py_int x = (if 0 \<le> x then \<lfloor>x\<rfloor> else \<lceil>x\<rceil>)"

section \<open>Demand statistics\<close>







section \<open>The standard normal distribution\<close>

text \<open>
  \<open>scipy.stats.norm.ppf\<close> is the inverse of the standard normal distribution
  function. \<open>gauss_area x\<close> is the area under \<open>exp (- t\<^sup>2 / 2)\<close> between \<open>0\<close> and
  \<open>x\<close>, written as its power series; half of the total mass is the supremum of that
  area (its value is \<open>sqrt (pi / 2)\<close>), so \<open>std_normal_cdf\<close> is the distribution
  function of the density proportional to \<open>exp (- t\<^sup>2 / 2)\<close>. The quantile is its
  inverse on the open unit interval. At the two end points scipy returns the
  infinities and outside the closed interval it returns NaN, without raising.
\<close>

definition gauss_coeff :: "nat \<Rightarrow> real" where
  "gauss_coeff n =
    (if even n then 0 else (- 1 / 2) ^ ((n - 1) div 2) / (fact ((n - 1) div 2) * real n))"

definition gauss_area :: "real \<Rightarrow> real" where
  "gauss_area x = (\<Sum>n. gauss_coeff n * x ^ n)"

definition gauss_half_mass :: real where
  "gauss_half_mass = Sup (range gauss_area)"

definition std_normal_cdf :: "real \<Rightarrow> real" where
  "std_normal_cdf x = 1 / 2 + gauss_area x / (2 * gauss_half_mass)"



section \<open>Replenishment calculations (\<open>InteractiveInventoryGame\<close>)\<close>




definition calculate_target_stock ::
    "session \<Rightarrow> string \<Rightarrow> real \<Rightarrow> int \<Rightarrow> real \<Rightarrow> py_error + real" where
  "calculate_target_stock st product_id forecast interval safety_stock =
    (case map_of (products st) product_id of
       None \<Rightarrow> Inl (KeyError product_id)
     | Some product \<Rightarrow>
         Inr (forecast * real_of_int (lead_time product + interval) + safety_stock))"

definition should_reorder :: "session \<Rightarrow> string \<Rightarrow> real \<Rightarrow> py_error + bool" where
  "should_reorder st product_id reorder_point =
    (case map_of (products st) product_id of
       None \<Rightarrow> Inl (KeyError product_id)
     | Some product \<Rightarrow> Inr (real_of_int (current_stock product) \<le> reorder_point))"

definition calculate_order_quantity :: "session \<Rightarrow> string \<Rightarrow> real \<Rightarrow> py_error + int" where
  "calculate_order_quantity st product_id target_stock =
    (case map_of (products st) product_id of
       None \<Rightarrow> Inl (KeyError product_id)
     | Some product \<Rightarrow>
         Inr (py_int (max 0 (target_stock - real_of_int (current_stock product)))))"



section \<open>One simulated day (\<open>process_daily_sales\<close>)\<close>

text \<open>
  The random source is an explicit argument: \<open>draws product_id\<close> is the value that
  \<open>random.uniform(0.7, 1.3)\<close> returns in the iteration of that product (one draw
  per product per day).
\<close>

definition draw_demand :: "int \<Rightarrow> real \<Rightarrow> int" where
  "draw_demand base_demand u = max 1 (py_int (real_of_int base_demand * u))"

text \<open>The accumulators of the first loop, with the two dictionaries it mutates.\<close>

record day_acc =
  acc_products :: "(string \<times> SimpleProduct) list"
  acc_history :: "(string \<times> int list) list"
  acc_daily_sales :: "(string \<times> sale_entry) list"
  acc_total_revenue :: real
  acc_total_cost :: real
  acc_stockouts :: "stockout list"

definition push_history :: "int list \<Rightarrow> int \<Rightarrow> int list" where
  "push_history h x = (let h1 = h @ [x] in if 7 < length h1 then tl h1 else h1)"

text \<open>The body of the loop over \<open>products.items()\<close>, for one product.\<close>

definition sell_product ::
    "(string \<Rightarrow> real) \<Rightarrow> string \<times> SimpleProduct \<Rightarrow> day_acc \<Rightarrow> py_error + day_acc" where
  "sell_product draws item acc =
    (let product_id = fst item; product = snd item;
         base_demand = daily_demand product;
         actual_demand = draw_demand base_demand (draws product_id);
         actual_sales = min actual_demand (current_stock product);
         product' = product\<lparr>current_stock := current_stock product - actual_sales\<rparr>;
         rev = real_of_int actual_sales * price product;
         cst = real_of_int actual_sales * cost product;
         outs = (if actual_sales < actual_demand
                 then acc_stockouts acc @
                   [\<lparr>so_product = name product, shortage = actual_demand - actual_sales,
                     lost_revenue = real_of_int (actual_demand - actual_sales) * price product\<rparr>]
                 else acc_stockouts acc);
         entry = \<lparr>demand = actual_demand, sales = actual_sales, revenue = rev,
                  profit = rev - cst, stock_after = current_stock product'\<rparr>
     in case map_of (acc_history acc) product_id of
          None \<Rightarrow> Inl (KeyError product_id)
        | Some h \<Rightarrow>
            Inr \<lparr>acc_products = AList.update product_id product' (acc_products acc),
                 acc_history = AList.update product_id (push_history h actual_sales) (acc_history acc),
                 acc_daily_sales = AList.update product_id entry (acc_daily_sales acc),
                 acc_total_revenue = acc_total_revenue acc + rev,
                 acc_total_cost = acc_total_cost acc + cst,
                 acc_stockouts = outs\<rparr>)"

fun sell_loop ::
    "(string \<Rightarrow> real) \<Rightarrow> (string \<times> SimpleProduct) list \<Rightarrow> day_acc \<Rightarrow> py_error + day_acc" where
  "sell_loop draws [] acc = Inr acc"
| "sell_loop draws (item # items) acc =
    (case sell_product draws item acc of
       Inl e \<Rightarrow> Inl e
     | Inr acc' \<Rightarrow> sell_loop draws items acc')"

text \<open>
  The body of the loop over the keys of \<open>pending_orders\<close>: count the order down and,
  when it is due, add its quantity to the stock and delete it.
\<close>

definition arrive_order ::
    "string \<Rightarrow> (string \<times> SimpleProduct) list \<times> (string \<times> pending_order) list \<Rightarrow>
     py_error + (string \<times> SimpleProduct) list \<times> (string \<times> pending_order) list" where
  "arrive_order product_id pp =
    (case map_of (snd pp) product_id of
       None \<Rightarrow> Inl (KeyError product_id)
     | Some ord \<Rightarrow>
        (let ord' = ord\<lparr>days_remaining := days_remaining ord - 1\<rparr> in
         if days_remaining ord' \<le> 0
         then (case map_of (fst pp) product_id of
                 None \<Rightarrow> Inl (KeyError product_id)
               | Some product \<Rightarrow>
                   Inr (AList.update product_id
                          (product\<lparr>current_stock := current_stock product + quantity ord'\<rparr>) (fst pp),
                        AList.delete product_id (snd pp)))
         else Inr (fst pp, AList.update product_id ord' (snd pp))))"

fun arrive_loop ::
    "string list \<Rightarrow> (string \<times> SimpleProduct) list \<times> (string \<times> pending_order) list \<Rightarrow>
     py_error + (string \<times> SimpleProduct) list \<times> (string \<times> pending_order) list" where
  "arrive_loop [] pp = Inr pp"
| "arrive_loop (k # ks) pp =
    (case arrive_order k pp of
       Inl e \<Rightarrow> Inl e
     | Inr pp' \<Rightarrow> arrive_loop ks pp')"

definition score_of_day :: "real \<Rightarrow> stockout list \<Rightarrow> real" where
  "score_of_day day_profit outs =
    (let s0 = 0;
         s1 = (if 0 < day_profit then s0 + day_profit * (1 / 10) else s0);
         s2 = (if outs = [] then s1 + 50 else s1)
     in s2)"

text \<open>The accumulators as they stand before the first loop.\<close>

definition day_start :: "session \<Rightarrow> day_acc" where
  "day_start st =
     \<lparr>acc_products = products st, acc_history = sales_history st,
      acc_daily_sales = [], acc_total_revenue = 0, acc_total_cost = 0,
      acc_stockouts = []\<rparr>"

definition process_daily_sales ::
    "(string \<Rightarrow> real) \<Rightarrow> session \<Rightarrow> py_error + report \<times> session" where
  "process_daily_sales draws st =
    (case sell_loop draws (products st) (day_start st) of
       Inl e \<Rightarrow> Inl e
     | Inr acc \<Rightarrow>
        (case arrive_loop (map fst (pending_orders st)) (acc_products acc, pending_orders st) of
           Inl e \<Rightarrow> Inl e
         | Inr pp \<Rightarrow>
            (let day_profit = acc_total_revenue acc - acc_total_cost acc;
                 cash' = cash st + day_profit;
                 day' = day st + 1;
                 score_today = score_of_day day_profit (acc_stockouts acc);
                 rep = \<lparr>r_day = day' - 1, r_sales = acc_daily_sales acc,
                        r_total_revenue = acc_total_revenue acc,
                        r_total_cost = acc_total_cost acc, r_profit = day_profit,
                        r_stockouts = acc_stockouts acc, r_cash = cash',
                        r_score_today = score_today\<rparr>
             in Inr (rep,
                  st\<lparr>day := day', cash := cash',
                     total_revenue := total_revenue st + acc_total_revenue acc,
                     total_profit := total_profit st + day_profit,
                     products := fst pp, sales_history := acc_history acc,
                     pending_orders := snd pp,
                     daily_reports := daily_reports st @ [rep],
                     score := score st + score_today\<rparr>))))"

text \<open>Several days in a row, one draw function per day; the reports are collected.\<close>

fun run_days :: "(string \<Rightarrow> real) list \<Rightarrow> session \<Rightarrow> py_error + report list \<times> session" where
  "run_days [] st = Inr ([], st)"
| "run_days (d # ds) st =
    (case process_daily_sales d st of
       Inl e \<Rightarrow> Inl e
     | Inr (rep, st') \<Rightarrow>
        (case run_days ds st' of
           Inl e \<Rightarrow> Inl e
         | Inr (reps, st'') \<Rightarrow> Inr (rep # reps, st'')))"

section \<open>The wizard's steps that change engine state\<close>

text \<open>
  Step 1: the quiz on lead times. The radio button offers the three products; the
  button adds 10 points when the answer is the bread (\<open>"bread" in answer\<close>).
\<close>

datatype quiz_answer = AnswerWater | AnswerBread | AnswerMilk

definition submit_leadtime :: "quiz_answer \<Rightarrow> session \<Rightarrow> session" where
  "submit_leadtime answer st =
    (if answer = AnswerBread then st\<lparr>score := score st + 10\<rparr> else st)"

text \<open>
  Step 6 (\<open>render_step_6_order\<close>): the first loop prices the batch, the funds check
  guards the submit button, and a click on the button commits every positive
  quantity and debits the cash. \<open>clicked\<close> says whether the button, when it is
  shown, is pressed in this run of the page.
\<close>

datatype step6_message = OrderSubmitted real | InsufficientFunds

fun price_orders ::
    "(string \<times> SimpleProduct) list \<Rightarrow> (string \<times> int) list \<Rightarrow>
     real \<times> (string \<times> int) list \<Rightarrow> py_error + real \<times> (string \<times> int) list" where
  "price_orders prods [] acc = Inr acc"
| "price_orders prods ((product_id, qty) # rest) acc =
    (case map_of prods product_id of
       None \<Rightarrow> Inl (KeyError product_id)
     | Some product \<Rightarrow>
         if 0 < qty
         then price_orders prods rest
                (fst acc + real_of_int qty * cost product, snd acc @ [(product_id, qty)])
         else price_orders prods rest acc)"

fun commit_orders ::
    "(string \<times> SimpleProduct) list \<Rightarrow> (string \<times> int) list \<Rightarrow>
     (string \<times> pending_order) list \<Rightarrow> py_error + (string \<times> pending_order) list" where
  "commit_orders prods [] pend = Inr pend"
| "commit_orders prods ((product_id, qty) # rest) pend =
    (if 0 < qty
     then (case map_of prods product_id of
             None \<Rightarrow> Inl (KeyError product_id)
           | Some product \<Rightarrow>
               commit_orders prods rest
                 (AList.update product_id
                    \<lparr>quantity = qty, days_remaining = lead_time product,
                     order_cost = real_of_int qty * cost product\<rparr> pend))
     else commit_orders prods rest pend)"

definition render_step_6_order ::
    "bool \<Rightarrow> session \<Rightarrow> py_error + step6_message option \<times> session" where
  "render_step_6_order clicked st =
    (case price_orders (products st) (player_orders st) (0, []) of
       Inl e \<Rightarrow> Inl e
     | Inr (total_cost, order_details) \<Rightarrow>
        if order_details \<noteq> []
        then (let remaining = cash st - total_cost in
              if 0 \<le> remaining
              then (if clicked
                    then (case commit_orders (products st) (player_orders st) (pending_orders st) of
                            Inl e \<Rightarrow> Inl e
                          | Inr pend \<Rightarrow>
                              Inr (Some (OrderSubmitted total_cost),
                                   st\<lparr>pending_orders := pend, cash := cash st - total_cost,
                                      order_submitted := True\<rparr>))
                    else Inr (None, st))
              else Inr (Some InsufficientFunds, st))
        else Inr (None, st\<lparr>order_submitted := True\<rparr>))"

section \<open>Notions used to state the properties\<close>

text \<open>
  A session is well keyed when its dictionaries are dictionaries (no key twice),
  every product has a sales history, and every pending order is for a product of
  the catalogue. \<open>initialize_game\<close> is well keyed, and the operations keep it so.
\<close>

definition session_ok :: "session \<Rightarrow> bool" where
  "session_ok st \<longleftrightarrow>
     distinct (map fst (products st)) \<and>
     distinct (map fst (pending_orders st)) \<and>
     set (map fst (products st)) \<subseteq> set (map fst (sales_history st)) \<and>
     set (map fst (pending_orders st)) \<subseteq> set (map fst (products st))"

definition stock_of :: "session \<Rightarrow> string \<Rightarrow> int option" where
  "stock_of st product_id = map_option current_stock (map_of (products st) product_id)"

text \<open>The units of a product sold on a day with the given draw: \<open>actual_sales\<close>.\<close>

definition fulfilled :: "(string \<Rightarrow> real) \<Rightarrow> string \<times> SimpleProduct \<Rightarrow> int" where
  "fulfilled draws item =
     min (draw_demand (daily_demand (snd item)) (draws (fst item))) (current_stock (snd item))"

text \<open>The units of a product sold according to a list of daily reports.\<close>

definition sold :: "string \<Rightarrow> report list \<Rightarrow> int" where
  "sold product_id reps =
     sum_list (map (\<lambda>r. case map_of (r_sales r) product_id of
                           None \<Rightarrow> 0 | Some e \<Rightarrow> sales e) reps)"

text \<open>The cost of a batch of orders: quantity times unit cost, over all its entries.\<close>

definition batch_cost :: "(string \<times> SimpleProduct) list \<Rightarrow> (string \<times> int) list \<Rightarrow> real" where
  "batch_cost prods orders =
     sum_list (map (\<lambda>item. case map_of prods (fst item) of
                              None \<Rightarrow> 0
                            | Some product \<Rightarrow> real_of_int (snd item) * cost product) orders)"

text \<open>
  A sound session is well keyed and has non-negative cash, products with a
  non-negative cost not above the price and a non-negative stock, pending orders of
  non-negative quantity, and a batch of player orders as step 5 enters it:
  non-negative quantities for products of the catalogue.
\<close>

definition session_sound :: "session \<Rightarrow> bool" where
  "session_sound st \<longleftrightarrow>
     session_ok st \<and> 0 \<le> cash st \<and>
     (\<forall>item \<in> set (products st).
        0 \<le> cost (snd item) \<and> cost (snd item) \<le> price (snd item) \<and>
        0 \<le> current_stock (snd item)) \<and>
     (\<forall>item \<in> set (pending_orders st). 0 \<le> quantity (snd item)) \<and>
     set (map fst (player_orders st)) \<subseteq> set (map fst (products st)) \<and>
     (\<forall>item \<in> set (player_orders st). 0 \<le> snd item) \<and>
     distinct (map fst (player_orders st))"

text \<open>
  Step 5 stores the quantity the player enters for a product
  (\<open>player_orders[product_id] = player_order\<close>, or \<open>0\<close> when no order is due);
  the number input admits 0 to 500, for the products of the catalogue.
\<close>

definition enter_order :: "string \<Rightarrow> int \<Rightarrow> session \<Rightarrow> session" where
  "enter_order product_id qty st =
     st\<lparr>player_orders := AList.update product_id qty (player_orders st)\<rparr>"

text \<open>
  A play of the game: days of trading, quiz answers, quantities entered in step 5
  and visits of the order page.
\<close>

datatype game_event =
    DayEvent "string \<Rightarrow> real"
  | QuizEvent quiz_answer
  | EnterOrder string int
  | OrderEvent bool

fun run_events :: "game_event list \<Rightarrow> session \<Rightarrow> py_error + session" where
  "run_events [] st = Inr st"
| "run_events (DayEvent draws # evs) st =
    (case process_daily_sales draws st of
       Inl e \<Rightarrow> Inl e
     | Inr (rep, st') \<Rightarrow> run_events evs st')"
| "run_events (QuizEvent answer # evs) st = run_events evs (submit_leadtime answer st)"
| "run_events (EnterOrder product_id qty # evs) st = run_events evs (enter_order product_id qty st)"
| "run_events (OrderEvent clicked # evs) st =
    (case render_step_6_order clicked st of
       Inl e \<Rightarrow> Inl e
     | Inr (msg, st') \<Rightarrow> run_events evs st')"

text \<open>The events the widgets allow, for a catalogue with the given product ids.\<close>

fun event_ok :: "string set \<Rightarrow> game_event \<Rightarrow> bool" where
  "event_ok K (EnterOrder product_id qty) \<longleftrightarrow> product_id \<in> K \<and> 0 \<le> qty \<and> qty \<le> 500"
| "event_ok K _ \<longleftrightarrow> True"

section \<open>The loops of a simulated day\<close>

subsection \<open>Dictionaries\<close>

lemma map_of_eq_None_keys: "map_of al k = None \<longleftrightarrow> k \<notin> set (map fst al)"
  by (simp add: map_of_eq_None_iff)

lemma sell_product_total:
  assumes "k \<in> set (map fst (acc_history acc))"
  shows "\<exists>acc'. sell_product draws (k, p) acc = Inr acc'"
proof -
  from assms obtain h where "map_of (acc_history acc) k = Some h"
    by (cases "map_of (acc_history acc) k") (auto simp: map_of_eq_None_keys)
  then show ?thesis by (simp add: sell_product_def Let_def)
qed

lemma sell_product_Inr:
  assumes "map_of (acc_history acc) k = Some h"
  shows "sell_product draws (k, p) acc =
    Inr \<lparr>acc_products = AList.update k (p\<lparr>current_stock := current_stock p - fulfilled draws (k, p)\<rparr>) (acc_products acc),
         acc_history = AList.update k (push_history h (fulfilled draws (k, p))) (acc_history acc),
         acc_daily_sales = AList.update k
            \<lparr>demand = draw_demand (daily_demand p) (draws k), sales = fulfilled draws (k, p),
             revenue = real_of_int (fulfilled draws (k, p)) * price p,
             profit = real_of_int (fulfilled draws (k, p)) * price p - real_of_int (fulfilled draws (k, p)) * cost p,
             stock_after = current_stock p - fulfilled draws (k, p)\<rparr> (acc_daily_sales acc),
         acc_total_revenue = acc_total_revenue acc + real_of_int (fulfilled draws (k, p)) * price p,
         acc_total_cost = acc_total_cost acc + real_of_int (fulfilled draws (k, p)) * cost p,
         acc_stockouts = (if fulfilled draws (k, p) < draw_demand (daily_demand p) (draws k)
            then acc_stockouts acc @
                   [\<lparr>so_product = name p,
                     shortage = draw_demand (daily_demand p) (draws k) - fulfilled draws (k, p),
                     lost_revenue = real_of_int (draw_demand (daily_demand p) (draws k) - fulfilled draws (k, p)) * price p\<rparr>]
            else acc_stockouts acc)\<rparr>"
  using assms by (simp add: sell_product_def fulfilled_def Let_def)

lemma sell_product_history:
  assumes "sell_product draws (k, p) acc = Inr acc'"
  shows "\<exists>h. map_of (acc_history acc) k = Some h"
  using assms by (cases "map_of (acc_history acc) k") (simp_all add: sell_product_def Let_def)

lemma sell_product_fields:
  assumes "sell_product draws (k, p) acc = Inr acc'"
  shows "acc_products acc' =
           AList.update k (p\<lparr>current_stock := current_stock p - fulfilled draws (k, p)\<rparr>) (acc_products acc)"
    and "\<exists>h. map_of (acc_history acc) k = Some h \<and>
           acc_history acc' = AList.update k (push_history h (fulfilled draws (k, p))) (acc_history acc)"
    and "acc_daily_sales acc' = AList.update k
            \<lparr>demand = draw_demand (daily_demand p) (draws k), sales = fulfilled draws (k, p),
             revenue = real_of_int (fulfilled draws (k, p)) * price p,
             profit = real_of_int (fulfilled draws (k, p)) * price p - real_of_int (fulfilled draws (k, p)) * cost p,
             stock_after = current_stock p - fulfilled draws (k, p)\<rparr> (acc_daily_sales acc)"
    and "acc_total_revenue acc' = acc_total_revenue acc + real_of_int (fulfilled draws (k, p)) * price p"
    and "acc_total_cost acc' = acc_total_cost acc + real_of_int (fulfilled draws (k, p)) * cost p"
    and "acc_stockouts acc' = [] \<longleftrightarrow>
           acc_stockouts acc = [] \<and> \<not> fulfilled draws (k, p) < draw_demand (daily_demand p) (draws k)"
proof -
  from sell_product_history [OF assms] obtain h where h: "map_of (acc_history acc) k = Some h" ..
  note eq = assms [unfolded sell_product_Inr [OF h], simplified, symmetric]
  show "acc_products acc' =
           AList.update k (p\<lparr>current_stock := current_stock p - fulfilled draws (k, p)\<rparr>) (acc_products acc)"
    by (subst eq) simp
  show "\<exists>h. map_of (acc_history acc) k = Some h \<and>
           acc_history acc' = AList.update k (push_history h (fulfilled draws (k, p))) (acc_history acc)"
    using h by (subst eq) simp
  show "acc_daily_sales acc' = AList.update k
            \<lparr>demand = draw_demand (daily_demand p) (draws k), sales = fulfilled draws (k, p),
             revenue = real_of_int (fulfilled draws (k, p)) * price p,
             profit = real_of_int (fulfilled draws (k, p)) * price p - real_of_int (fulfilled draws (k, p)) * cost p,
             stock_after = current_stock p - fulfilled draws (k, p)\<rparr> (acc_daily_sales acc)"
    by (subst eq) simp
  show "acc_total_revenue acc' = acc_total_revenue acc + real_of_int (fulfilled draws (k, p)) * price p"
    by (subst eq) simp
  show "acc_total_cost acc' = acc_total_cost acc + real_of_int (fulfilled draws (k, p)) * cost p"
    by (subst eq) simp
  show "acc_stockouts acc' = [] \<longleftrightarrow>
           acc_stockouts acc = [] \<and> \<not> fulfilled draws (k, p) < draw_demand (daily_demand p) (draws k)"
    by (subst eq) simp
qed

lemma sell_product_history_keys:
  assumes "sell_product draws (k, p) acc = Inr acc'"
  shows "set (map fst (acc_history acc')) = set (map fst (acc_history acc))"
proof -
  from sell_product_fields(2) [OF assms] obtain h where
    h: "map_of (acc_history acc) k = Some h"
    and eq: "acc_history acc' = AList.update k (push_history h (fulfilled draws (k, p))) (acc_history acc)"
    by blast
  from map_of_SomeD [OF h] have "k \<in> fst ` set (acc_history acc)"
    by (metis fst_conv image_eqI)
  then show ?thesis unfolding eq by (auto simp: dom_update)
qed

lemma sell_loop_total:
  assumes "set (map fst items) \<subseteq> set (map fst (acc_history acc))"
  shows "\<exists>acc'. sell_loop draws items acc = Inr acc'"
  using assms
proof (induction items arbitrary: acc)
  case Nil
  then show ?case by simp
next
  case (Cons item items)
  obtain k p where item: "item = (k, p)" by (cases item)
  from Cons.prems item have "k \<in> set (map fst (acc_history acc))" by simp
  from sell_product_total [OF this] obtain acc1 where
    step: "sell_product draws (k, p) acc = Inr acc1" by blast
  have "set (map fst items) \<subseteq> set (map fst (acc_history acc1))"
    using Cons.prems sell_product_history_keys [OF step] by simp
  from Cons.IH [OF this] step show ?case
    unfolding item by simp
qed

text \<open>What the first loop leaves in the product dictionary, the report and the totals.\<close>

lemma sell_loop_products:
  assumes "sell_loop draws items acc = Inr acc'" and "distinct (map fst items)"
  shows "map_of (acc_products acc') k =
           (case map_of items k of
              None \<Rightarrow> map_of (acc_products acc) k
            | Some p \<Rightarrow> Some (p\<lparr>current_stock := current_stock p - fulfilled draws (k, p)\<rparr>))"
  using assms
proof (induction items arbitrary: acc)
  case Nil
  then show ?case by simp
next
  case (Cons item items)
  obtain k0 p0 where item: "item = (k0, p0)" by (cases item)
  from Cons.prems(1) obtain acc1 where
    step: "sell_product draws (k0, p0) acc = Inr acc1"
    and rest: "sell_loop draws items acc1 = Inr acc'"
    unfolding item by (auto split: sum.splits)
  from Cons.prems(2) item have d: "distinct (map fst items)" and notin: "k0 \<notin> set (map fst items)"
    by simp_all
  from notin have none: "map_of items k0 = None" by (simp add: map_of_eq_None_keys)
  note IH = Cons.IH [OF rest d]
  show ?case
    unfolding item IH using none
    by (simp add: sell_product_fields(1) [OF step] update_conv' split: option.splits)
qed

lemma sell_loop_daily_sales:
  assumes "sell_loop draws items acc = Inr acc'" and "distinct (map fst items)"
  shows "map_of (acc_daily_sales acc') k =
           (case map_of items k of
              None \<Rightarrow> map_of (acc_daily_sales acc) k
            | Some p \<Rightarrow> Some \<lparr>demand = draw_demand (daily_demand p) (draws k), sales = fulfilled draws (k, p),
             revenue = real_of_int (fulfilled draws (k, p)) * price p,
             profit = real_of_int (fulfilled draws (k, p)) * price p - real_of_int (fulfilled draws (k, p)) * cost p,
             stock_after = current_stock p - fulfilled draws (k, p)\<rparr>)"
  using assms
proof (induction items arbitrary: acc)
  case Nil
  then show ?case by simp
next
  case (Cons item items)
  obtain k0 p0 where item: "item = (k0, p0)" by (cases item)
  from Cons.prems(1) obtain acc1 where
    step: "sell_product draws (k0, p0) acc = Inr acc1"
    and rest: "sell_loop draws items acc1 = Inr acc'"
    unfolding item by (auto split: sum.splits)
  from Cons.prems(2) item have d: "distinct (map fst items)" and notin: "k0 \<notin> set (map fst items)"
    by simp_all
  from notin have none: "map_of items k0 = None" by (simp add: map_of_eq_None_keys)
  note IH = Cons.IH [OF rest d]
  show ?case
    unfolding item IH using none
    by (simp add: sell_product_fields(3) [OF step] update_conv' split: option.splits)
qed

lemma sell_loop_totals:
  assumes "sell_loop draws items acc = Inr acc'"
  shows "acc_total_revenue acc' =
           acc_total_revenue acc + (\<Sum>item\<leftarrow>items. real_of_int (fulfilled draws item) * price (snd item))"
    and "acc_total_cost acc' =
           acc_total_cost acc + (\<Sum>item\<leftarrow>items. real_of_int (fulfilled draws item) * cost (snd item))"
  using assms
proof (induction items arbitrary: acc)
  case Nil
  { case 1 then show ?case by simp }
  { case 2 then show ?case by simp }
next
  case (Cons item items)
  obtain k0 p0 where item: "item = (k0, p0)" by (cases item)
  { case 1
    then obtain acc1 where
      step: "sell_product draws (k0, p0) acc = Inr acc1"
      and rest: "sell_loop draws items acc1 = Inr acc'"
      unfolding item by (auto split: sum.splits)
    show ?case unfolding Cons.IH(1) [OF rest] item
      by (simp add: sell_product_fields(4) [OF step]) }
  { case 2
    then obtain acc1 where
      step: "sell_product draws (k0, p0) acc = Inr acc1"
      and rest: "sell_loop draws items acc1 = Inr acc'"
      unfolding item by (auto split: sum.splits)
    show ?case unfolding Cons.IH(2) [OF rest] item
      by (simp add: sell_product_fields(5) [OF step]) }
qed

lemma sell_loop_keys:
  assumes "sell_loop draws items acc = Inr acc'"
  shows "set (map fst (acc_products acc')) = set (map fst (acc_products acc)) \<union> set (map fst items)"
    and "set (map fst (acc_history acc')) = set (map fst (acc_history acc))"
    and "distinct (map fst (acc_products acc)) \<Longrightarrow> distinct (map fst (acc_products acc'))"
  using assms
proof (induction items arbitrary: acc)
  case Nil
  { case 1 then show ?case by simp }
  { case 2 then show ?case by simp }
  { case 3 then show ?case by simp }
next
  case (Cons item items)
  obtain k0 p0 where item: "item = (k0, p0)" by (cases item)
  { case 1
    then obtain acc1 where
      step: "sell_product draws (k0, p0) acc = Inr acc1"
      and rest: "sell_loop draws items acc1 = Inr acc'"
      unfolding item by (auto split: sum.splits)
    show ?case unfolding Cons.IH(1) [OF rest] item
      by (auto simp: sell_product_fields(1) [OF step] dom_update) }
  { case 2
    then obtain acc1 where
      step: "sell_product draws (k0, p0) acc = Inr acc1"
      and rest: "sell_loop draws items acc1 = Inr acc'"
      unfolding item by (auto split: sum.splits)
    show ?case unfolding Cons.IH(2) [OF rest] 
      by (rule sell_product_history_keys [OF step]) }
  { case 3
    then obtain acc1 where
      step: "sell_product draws (k0, p0) acc = Inr acc1"
      and rest: "sell_loop draws items acc1 = Inr acc'"
      unfolding item by (auto split: sum.splits)
    have "distinct (map fst (acc_products acc1))"
      unfolding sell_product_fields(1) [OF step] using 3(1) by (rule distinct_update)
    then show ?case by (rule Cons.IH(3) [OF _ rest]) }
qed

subsection \<open>The arrival loop\<close>


lemma map_of_Some_key: "map_of al k = Some v \<Longrightarrow> k \<in> set (map fst al)"
  using map_of_eq_None_keys [of al k] by auto

lemma key_map_of_Some: "k \<in> set (map fst al) \<Longrightarrow> \<exists>v. map_of al k = Some v"
  by (cases "map_of al k") (simp_all add: map_of_eq_None_keys)

text \<open>One iteration of the arrival loop.\<close>

lemma arrive_order_due:
  assumes "map_of pend k = Some ord" and "days_remaining ord \<le> 1"
    and "map_of prods k = Some p"
  shows "arrive_order k (prods, pend) =
           Inr (AList.update k (p\<lparr>current_stock := current_stock p + quantity ord\<rparr>) prods,
                AList.delete k pend)"
  using assms by (simp add: arrive_order_def Let_def)

lemma arrive_order_wait:
  assumes "map_of pend k = Some ord" and "1 < days_remaining ord"
  shows "arrive_order k (prods, pend) =
           Inr (prods, AList.update k (ord\<lparr>days_remaining := days_remaining ord - 1\<rparr>) pend)"
  using assms by (simp add: arrive_order_def Let_def)

lemma arrive_order_total:
  assumes "k \<in> set (map fst pend)" and "k \<in> set (map fst prods)"
  shows "\<exists>pp'. arrive_order k (prods, pend) = Inr pp'"
proof -
  from key_map_of_Some [OF assms(1)] obtain ord where o: "map_of pend k = Some ord" ..
  from key_map_of_Some [OF assms(2)] obtain p where p: "map_of prods k = Some p" ..
  show ?thesis
  proof (cases "days_remaining ord \<le> 1")
    case True
    from arrive_order_due [OF o True p] show ?thesis by blast
  next
    case False
    then have "1 < days_remaining ord" by simp
    from arrive_order_wait [OF o this] show ?thesis by blast
  qed
qed

lemma arrive_order_cases:
  assumes "arrive_order k (prods, pend) = Inr (prods', pend')"
  obtains (due) ord p where "map_of pend k = Some ord" "days_remaining ord \<le> 1"
      "map_of prods k = Some p"
      "prods' = AList.update k (p\<lparr>current_stock := current_stock p + quantity ord\<rparr>) prods"
      "pend' = AList.delete k pend"
  | (wait) ord where "map_of pend k = Some ord" "1 < days_remaining ord"
      "prods' = prods"
      "pend' = AList.update k (ord\<lparr>days_remaining := days_remaining ord - 1\<rparr>) pend"
proof -
  from assms obtain ord where o: "map_of pend k = Some ord"
    by (cases "map_of pend k") (simp_all add: arrive_order_def)
  show thesis
  proof (cases "days_remaining ord \<le> 1")
    case True
    with assms o obtain p where p: "map_of prods k = Some p"
      by (cases "map_of prods k") (simp_all add: arrive_order_def Let_def)
    from assms [unfolded arrive_order_due [OF o True p]] due [OF o True p] show thesis by simp
  next
    case False
    then have w: "1 < days_remaining ord" by simp
    from assms [unfolded arrive_order_wait [OF o w]] wait [OF o w] show thesis by simp
  qed
qed

text \<open>An iteration changes the two dictionaries at its own key only.\<close>

lemma arrive_order_other:
  assumes "arrive_order k (prods, pend) = Inr (prods', pend')" and "j \<noteq> k"
  shows "map_of prods' j = map_of prods j" and "map_of pend' j = map_of pend j"
  using assms(1)
  by (cases rule: arrive_order_cases; simp add: update_conv' delete_conv' assms(2))+

lemma arrive_order_keys:
  assumes "arrive_order k (prods, pend) = Inr (prods', pend')"
  shows "set (map fst prods') = set (map fst prods)"
    and "set (map fst pend') \<subseteq> set (map fst pend)"
    and "distinct (map fst prods) \<Longrightarrow> distinct (map fst prods')"
    and "distinct (map fst pend) \<Longrightarrow> distinct (map fst pend')"
proof -
  show "set (map fst prods') = set (map fst prods)"
    using assms
  proof (cases rule: arrive_order_cases)
    case (due ord p)
    from map_of_Some_key [OF due(3)] show ?thesis
      unfolding due(4) by (auto simp: dom_update)
  next
    case (wait ord)
    then show ?thesis by simp
  qed
  show "set (map fst pend') \<subseteq> set (map fst pend)"
    using assms
  proof (cases rule: arrive_order_cases)
    case (due ord p)
    show ?thesis unfolding due(5) using dom_delete_subset [of k pend] by simp
  next
    case (wait ord)
    from map_of_Some_key [OF wait(1)] show ?thesis
      unfolding wait(4) by (auto simp: dom_update)
  qed
  show "distinct (map fst prods) \<Longrightarrow> distinct (map fst prods')"
    using assms by (cases rule: arrive_order_cases) (simp_all add: distinct_update)
  show "distinct (map fst pend) \<Longrightarrow> distinct (map fst pend')"
    using assms by (cases rule: arrive_order_cases) (simp_all add: distinct_update distinct_delete)
qed


lemma arrive_loop_Cons:
  assumes "arrive_loop (k # ks) (prods, pend) = Inr (prods', pend')"
  obtains prods1 pend1 where "arrive_order k (prods, pend) = Inr (prods1, pend1)"
    and "arrive_loop ks (prods1, pend1) = Inr (prods', pend')"
  using assms by (cases "arrive_order k (prods, pend)") auto

lemma arrive_loop_other:
  assumes "arrive_loop ks (prods, pend) = Inr (prods', pend')" and "j \<notin> set ks"
  shows "map_of prods' j = map_of prods j \<and> map_of pend' j = map_of pend j"
  using assms
proof (induction ks arbitrary: prods pend)
  case Nil
  then show ?case by simp
next
  case (Cons k ks)
  from Cons.prems(1) obtain prods1 pend1 where
    step: "arrive_order k (prods, pend) = Inr (prods1, pend1)"
    and rest: "arrive_loop ks (prods1, pend1) = Inr (prods', pend')"
    by (rule arrive_loop_Cons)
  from Cons.prems(2) have "j \<noteq> k" "j \<notin> set ks" by simp_all
  with Cons.IH [OF rest] arrive_order_other [OF step] show ?case by simp
qed

lemma arrive_loop_due:
  assumes "arrive_loop ks (prods, pend) = Inr (prods', pend')" and "distinct ks"
    and "j \<in> set ks" and "map_of pend j = Some ord" and "days_remaining ord \<le> 1"
  shows "map_of pend' j = None \<and>
         (\<exists>p. map_of prods j = Some p \<and>
              map_of prods' j = Some (p\<lparr>current_stock := current_stock p + quantity ord\<rparr>))"
  using assms
proof (induction ks arbitrary: prods pend)
  case Nil
  then show ?case by simp
next
  case (Cons k ks)
  from Cons.prems(1) obtain prods1 pend1 where
    step: "arrive_order k (prods, pend) = Inr (prods1, pend1)"
    and rest: "arrive_loop ks (prods1, pend1) = Inr (prods', pend')"
    by (rule arrive_loop_Cons)
  from Cons.prems(2) have d: "distinct ks" and kn: "k \<notin> set ks" by simp_all
  show ?case
  proof (cases "j = k")
    case True
    from arrive_loop_other [OF rest kn]
    have same: "map_of prods' k = map_of prods1 k" "map_of pend' k = map_of pend1 k" by simp_all
    from step show ?thesis
    proof (cases rule: arrive_order_cases)
      case (due ord' p)
      with Cons.prems(4) True have "ord' = ord" by simp
      with due same True show ?thesis by (simp add: update_conv' delete_conv')
    next
      case (wait ord')
      with Cons.prems(4,5) True show ?thesis by simp
    qed
  next
    case False
    with Cons.prems(3) have j: "j \<in> set ks" by simp
    from arrive_order_other [OF step False] Cons.prems(4)
    have "map_of pend1 j = Some ord" and pe: "map_of prods1 j = map_of prods j" by simp_all
    from Cons.IH [OF rest d j this(1) Cons.prems(5)] pe show ?thesis by simp
  qed
qed

lemma arrive_loop_wait:
  assumes "arrive_loop ks (prods, pend) = Inr (prods', pend')" and "distinct ks"
    and "j \<in> set ks" and "map_of pend j = Some ord" and "1 < days_remaining ord"
  shows "map_of pend' j = Some (ord\<lparr>days_remaining := days_remaining ord - 1\<rparr>) \<and>
         map_of prods' j = map_of prods j"
  using assms
proof (induction ks arbitrary: prods pend)
  case Nil
  then show ?case by simp
next
  case (Cons k ks)
  from Cons.prems(1) obtain prods1 pend1 where
    step: "arrive_order k (prods, pend) = Inr (prods1, pend1)"
    and rest: "arrive_loop ks (prods1, pend1) = Inr (prods', pend')"
    by (rule arrive_loop_Cons)
  from Cons.prems(2) have d: "distinct ks" and kn: "k \<notin> set ks" by simp_all
  show ?case
  proof (cases "j = k")
    case True
    from arrive_loop_other [OF rest kn]
    have same: "map_of prods' k = map_of prods1 k" "map_of pend' k = map_of pend1 k" by simp_all
    from step show ?thesis
    proof (cases rule: arrive_order_cases)
      case (due ord' p)
      with Cons.prems(4,5) True show ?thesis by simp
    next
      case (wait ord')
      with Cons.prems(4) True have "ord' = ord" by simp
      with wait same True show ?thesis by (simp add: update_conv')
    qed
  next
    case False
    with Cons.prems(3) have j: "j \<in> set ks" by simp
    from arrive_order_other [OF step False] Cons.prems(4)
    have "map_of pend1 j = Some ord" and pe: "map_of prods1 j = map_of prods j" by simp_all
    from Cons.IH [OF rest d j this(1) Cons.prems(5)] pe show ?thesis by simp
  qed
qed

lemma arrive_loop_keys:
  assumes "arrive_loop ks (prods, pend) = Inr (prods', pend')"
  shows "set (map fst prods') = set (map fst prods)"
    and "set (map fst pend') \<subseteq> set (map fst pend)"
    and "distinct (map fst prods) \<Longrightarrow> distinct (map fst prods')"
    and "distinct (map fst pend) \<Longrightarrow> distinct (map fst pend')"
  using assms
proof (induction ks arbitrary: prods pend)
  case Nil
  { case 1 then show ?case by simp }
  { case 2 then show ?case by simp }
  { case 3 then show ?case by simp }
  { case 4 then show ?case by simp }
next
  case (Cons k ks)
  { case 1
    then obtain prods1 pend1 where
      step: "arrive_order k (prods, pend) = Inr (prods1, pend1)"
      and rest: "arrive_loop ks (prods1, pend1) = Inr (prods', pend')"
      by (rule arrive_loop_Cons)
    from Cons.IH(1) [OF rest] arrive_order_keys(1) [OF step] show ?case by simp }
  { case 2
    then obtain prods1 pend1 where
      step: "arrive_order k (prods, pend) = Inr (prods1, pend1)"
      and rest: "arrive_loop ks (prods1, pend1) = Inr (prods', pend')"
      by (rule arrive_loop_Cons)
    from Cons.IH(2) [OF rest] arrive_order_keys(2) [OF step] show ?case by blast }
  { case 3
    from 3(2) obtain prods1 pend1 where
      step: "arrive_order k (prods, pend) = Inr (prods1, pend1)"
      and rest: "arrive_loop ks (prods1, pend1) = Inr (prods', pend')"
      by (rule arrive_loop_Cons)
    from Cons.IH(3) [OF arrive_order_keys(3) [OF step 3(1)] rest] show ?case . }
  { case 4
    from 4(2) obtain prods1 pend1 where
      step: "arrive_order k (prods, pend) = Inr (prods1, pend1)"
      and rest: "arrive_loop ks (prods1, pend1) = Inr (prods', pend')"
      by (rule arrive_loop_Cons)
    from Cons.IH(4) [OF arrive_order_keys(4) [OF step 4(1)] rest] show ?case . }
qed

lemma arrive_loop_total:
  assumes "distinct ks" and "set ks \<subseteq> set (map fst pend)" and "set ks \<subseteq> set (map fst prods)"
  shows "\<exists>pp'. arrive_loop ks (prods, pend) = Inr pp'"
  using assms
proof (induction ks arbitrary: prods pend)
  case Nil
  then show ?case by simp
next
  case (Cons k ks)
  from Cons.prems have k: "k \<in> set (map fst pend)" "k \<in> set (map fst prods)"
    and d: "distinct ks" and kn: "k \<notin> set ks" by simp_all
  from arrive_order_total [OF k] obtain prods1 pend1 where
    step: "arrive_order k (prods, pend) = Inr (prods1, pend1)" by (metis surj_pair)
  have "set ks \<subseteq> set (map fst pend1)"
  proof
    fix j assume j: "j \<in> set ks"
    with kn have "j \<noteq> k" by blast
    from j Cons.prems(2) have "j \<in> set (map fst pend)" by auto
    from key_map_of_Some [OF this] obtain v where "map_of pend j = Some v" ..
    with arrive_order_other(2) [OF step \<open>j \<noteq> k\<close>] have "map_of pend1 j = Some v" by simp
    then show "j \<in> set (map fst pend1)" by (rule map_of_Some_key)
  qed
  moreover have "set ks \<subseteq> set (map fst prods1)"
    using Cons.prems(3) arrive_order_keys(1) [OF step] by simp
  ultimately obtain pp' where "arrive_loop ks (prods1, pend1) = Inr pp'"
    using Cons.IH [OF d] by blast
  with step show ?case by simp
qed

subsection \<open>The whole day\<close>

lemma process_daily_sales_Inr:
  assumes "sell_loop draws (products st) (day_start st) = Inr acc"
    and "arrive_loop (map fst (pending_orders st)) (acc_products acc, pending_orders st) = Inr (prods', pend')"
  shows "\<exists>rep st'. process_daily_sales draws st = Inr (rep, st')"
  using assms by (simp add: process_daily_sales_def Let_def)

lemma process_daily_sales_cases:
  assumes "process_daily_sales draws st = Inr (rep, st')"
  obtains acc where
    "sell_loop draws (products st) (day_start st) = Inr acc"
    "arrive_loop (map fst (pending_orders st)) (acc_products acc, pending_orders st)
       = Inr (products st', pending_orders st')"
    "sales_history st' = acc_history acc"
    "r_sales rep = acc_daily_sales acc"
    "r_profit rep = acc_total_revenue acc - acc_total_cost acc"
    "r_score_today rep = score_of_day (r_profit rep) (acc_stockouts acc)"
    "r_stockouts rep = acc_stockouts acc"
    "cash st' = cash st + r_profit rep"
    "score st' = score st + r_score_today rep"
    "daily_reports st' = daily_reports st @ [rep]"
    "player_orders st' = player_orders st"
proof -
  from assms obtain acc where a: "sell_loop draws (products st) (day_start st) = Inr acc"
    by (cases "sell_loop draws (products st) (day_start st)") (simp_all add: process_daily_sales_def)
  from assms a obtain pp where
    b: "arrive_loop (map fst (pending_orders st)) (acc_products acc, pending_orders st) = Inr pp"
    by (cases "arrive_loop (map fst (pending_orders st)) (acc_products acc, pending_orders st)")
       (simp_all add: process_daily_sales_def)
  have rep: "rep = \<lparr>r_day = day st + 1 - 1, r_sales = acc_daily_sales acc,
                        r_total_revenue = acc_total_revenue acc,
                        r_total_cost = acc_total_cost acc, r_profit = acc_total_revenue acc - acc_total_cost acc,
                        r_stockouts = acc_stockouts acc, r_cash = cash st + (acc_total_revenue acc - acc_total_cost acc),
                        r_score_today = score_of_day (acc_total_revenue acc - acc_total_cost acc) (acc_stockouts acc)\<rparr>"
    using assms a b by (simp add: process_daily_sales_def Let_def)
  have st': "st' = st\<lparr>day := day st + 1, cash := cash st + (acc_total_revenue acc - acc_total_cost acc),
                     total_revenue := total_revenue st + acc_total_revenue acc,
                     total_profit := total_profit st + (acc_total_revenue acc - acc_total_cost acc),
                     products := fst pp, sales_history := acc_history acc,
                     pending_orders := snd pp,
                     daily_reports := daily_reports st @ [rep],
                     score := score st + score_of_day (acc_total_revenue acc - acc_total_cost acc) (acc_stockouts acc)\<rparr>"
    using assms a b by (auto simp add: process_daily_sales_def Let_def)
  have 1: "arrive_loop (map fst (pending_orders st)) (acc_products acc, pending_orders st)
       = Inr (products st', pending_orders st')" by (simp add: b st')
  show thesis
    by (rule that [OF a 1]) (simp_all add: st', simp_all add: rep)
qed


lemma day_start_fields:
  "acc_products (day_start st) = products st"
  "acc_history (day_start st) = sales_history st"
  "acc_daily_sales (day_start st) = []"
  "acc_total_revenue (day_start st) = 0"
  "acc_total_cost (day_start st) = 0"
  "acc_stockouts (day_start st) = []"
  by (simp_all add: day_start_def)

lemma process_daily_sales_total:
  assumes "session_ok st"
  shows "\<exists>rep st'. process_daily_sales draws st = Inr (rep, st')"
proof -
  from assms have ok: "distinct (map fst (products st))" "distinct (map fst (pending_orders st))"
    "set (map fst (products st)) \<subseteq> set (map fst (sales_history st))"
    "set (map fst (pending_orders st)) \<subseteq> set (map fst (products st))"
    by (simp_all add: session_ok_def)
  from ok(3) have "set (map fst (products st)) \<subseteq> set (map fst (acc_history (day_start st)))"
    by (simp add: day_start_fields)
  from sell_loop_total [OF this] obtain acc where
    a: "sell_loop draws (products st) (day_start st) = Inr acc" by blast
  from sell_loop_keys(1) [OF a] have "set (map fst (acc_products acc)) = set (map fst (products st))"
    by (simp add: day_start_fields)
  with ok(4) have "set (map fst (pending_orders st)) \<subseteq> set (map fst (acc_products acc))" by simp
  from arrive_loop_total [OF ok(2) subset_refl this] obtain prods' pend' where
    "arrive_loop (map fst (pending_orders st)) (acc_products acc, pending_orders st) = Inr (prods', pend')"
    by (metis surj_pair)
  from process_daily_sales_Inr [OF a this] show ?thesis .
qed

lemma process_daily_sales_ok:
  assumes "process_daily_sales draws st = Inr (rep, st')" and "session_ok st"
  shows "session_ok st'"
proof -
  from assms(2) have ok: "distinct (map fst (products st))" "distinct (map fst (pending_orders st))"
    "set (map fst (products st)) \<subseteq> set (map fst (sales_history st))"
    "set (map fst (pending_orders st)) \<subseteq> set (map fst (products st))"
    by (simp_all add: session_ok_def)
  from assms(1) obtain acc where
    a: "sell_loop draws (products st) (day_start st) = Inr acc"
    and b: "arrive_loop (map fst (pending_orders st)) (acc_products acc, pending_orders st)
       = Inr (products st', pending_orders st')"
    and h: "sales_history st' = acc_history acc"
    by (rule process_daily_sales_cases)
  have k1: "set (map fst (acc_products acc)) = set (map fst (products st))"
    using sell_loop_keys(1) [OF a] by (simp add: day_start_fields)
  have k2: "set (map fst (acc_history acc)) = set (map fst (sales_history st))"
    using sell_loop_keys(2) [OF a] by (simp add: day_start_fields)
  have d1: "distinct (map fst (acc_products acc))"
    using sell_loop_keys(3) [OF a] ok(1) by (simp add: day_start_fields)
  have "distinct (map fst (products st'))" by (rule arrive_loop_keys(3) [OF b d1])
  moreover have "distinct (map fst (pending_orders st'))" by (rule arrive_loop_keys(4) [OF b ok(2)])
  moreover have k3: "set (map fst (products st')) = set (map fst (products st))"
    using arrive_loop_keys(1) [OF b] k1 by simp
  moreover have "set (map fst (pending_orders st')) \<subseteq> set (map fst (pending_orders st))"
    by (rule arrive_loop_keys(2) [OF b])
  ultimately show ?thesis using ok(3,4) k2 h by (auto simp: session_ok_def)
qed

text \<open>What one day does to one product of the catalogue.\<close>

lemma day_sales_entry:
  assumes "process_daily_sales draws st = Inr (rep, st')"
    and "distinct (map fst (products st))" and "map_of (products st) k = Some p"
  shows "map_of (r_sales rep) k =
           Some \<lparr>demand = draw_demand (daily_demand p) (draws k), sales = fulfilled draws (k, p),
             revenue = real_of_int (fulfilled draws (k, p)) * price p,
             profit = real_of_int (fulfilled draws (k, p)) * price p - real_of_int (fulfilled draws (k, p)) * cost p,
             stock_after = current_stock p - fulfilled draws (k, p)\<rparr>"
proof -
  from assms(1) obtain acc where
    a: "sell_loop draws (products st) (day_start st) = Inr acc"
    and r: "r_sales rep = acc_daily_sales acc"
    by (rule process_daily_sales_cases)
  from sell_loop_daily_sales [OF a assms(2), of k] assms(3) show ?thesis
    by (simp add: r)
qed

lemma day_no_order:
  assumes "process_daily_sales draws st = Inr (rep, st')"
    and "distinct (map fst (products st))" and "map_of (products st) k = Some p"
    and "map_of (pending_orders st) k = None"
  shows "map_of (products st') k = Some (p\<lparr>current_stock := current_stock p - fulfilled draws (k, p)\<rparr>)"
    and "map_of (pending_orders st') k = None"
proof -
  from assms(1) obtain acc where
    a: "sell_loop draws (products st) (day_start st) = Inr acc"
    and b: "arrive_loop (map fst (pending_orders st)) (acc_products acc, pending_orders st)
       = Inr (products st', pending_orders st')"
    by (rule process_daily_sales_cases)
  from assms(4) have "k \<notin> set (map fst (pending_orders st))" by (simp add: map_of_eq_None_keys)
  from arrive_loop_other [OF b this] sell_loop_products [OF a assms(2), of k] assms(3,4)
  show "map_of (products st') k = Some (p\<lparr>current_stock := current_stock p - fulfilled draws (k, p)\<rparr>)"
    and "map_of (pending_orders st') k = None"
    by simp_all
qed

lemma day_order_due:
  assumes "process_daily_sales draws st = Inr (rep, st')"
    and "distinct (map fst (products st))" and "distinct (map fst (pending_orders st))"
    and "map_of (products st) k = Some p"
    and "map_of (pending_orders st) k = Some ord" and "days_remaining ord \<le> 1"
  shows "map_of (products st') k =
           Some (p\<lparr>current_stock := current_stock p - fulfilled draws (k, p) + quantity ord\<rparr>)"
    and "map_of (pending_orders st') k = None"
proof -
  from assms(1) obtain acc where
    a: "sell_loop draws (products st) (day_start st) = Inr acc"
    and b: "arrive_loop (map fst (pending_orders st)) (acc_products acc, pending_orders st)
       = Inr (products st', pending_orders st')"
    by (rule process_daily_sales_cases)
  from assms(5) have "k \<in> set (map fst (pending_orders st))" by (rule map_of_Some_key)
  from arrive_loop_due [OF b assms(3) this assms(5,6)]
    sell_loop_products [OF a assms(2), of k] assms(4)
  show "map_of (products st') k =
           Some (p\<lparr>current_stock := current_stock p - fulfilled draws (k, p) + quantity ord\<rparr>)"
    and "map_of (pending_orders st') k = None"
    by auto
qed

lemma day_order_wait:
  assumes "process_daily_sales draws st = Inr (rep, st')"
    and "distinct (map fst (products st))" and "distinct (map fst (pending_orders st))"
    and "map_of (products st) k = Some p"
    and "map_of (pending_orders st) k = Some ord" and "1 < days_remaining ord"
  shows "map_of (products st') k = Some (p\<lparr>current_stock := current_stock p - fulfilled draws (k, p)\<rparr>)"
    and "map_of (pending_orders st') k = Some (ord\<lparr>days_remaining := days_remaining ord - 1\<rparr>)"
proof -
  from assms(1) obtain acc where
    a: "sell_loop draws (products st) (day_start st) = Inr acc"
    and b: "arrive_loop (map fst (pending_orders st)) (acc_products acc, pending_orders st)
       = Inr (products st', pending_orders st')"
    by (rule process_daily_sales_cases)
  from assms(5) have "k \<in> set (map fst (pending_orders st))" by (rule map_of_Some_key)
  from arrive_loop_wait [OF b assms(3) this assms(5,6)]
    sell_loop_products [OF a assms(2), of k] assms(4)
  show "map_of (products st') k = Some (p\<lparr>current_stock := current_stock p - fulfilled draws (k, p)\<rparr>)"
    and "map_of (pending_orders st') k = Some (ord\<lparr>days_remaining := days_remaining ord - 1\<rparr>)"
    by auto
qed

lemma sum_list_margin:
  "(\<Sum>item\<leftarrow>xs. real_of_int (fulfilled draws item) * (price (snd item) - cost (snd item)))
      = (\<Sum>item\<leftarrow>xs. real_of_int (fulfilled draws item) * price (snd item))
        - (\<Sum>item\<leftarrow>xs. real_of_int (fulfilled draws item) * cost (snd item))"
  by (induction xs) (simp_all add: algebra_simps)

lemma day_profit:
  assumes "process_daily_sales draws st = Inr (rep, st')"
  shows "r_profit rep =
           (\<Sum>item\<leftarrow>products st. real_of_int (fulfilled draws item) * (price (snd item) - cost (snd item)))"
proof -
  from assms obtain acc where
    a: "sell_loop draws (products st) (day_start st) = Inr acc"
    and r: "r_profit rep = acc_total_revenue acc - acc_total_cost acc"
    by (rule process_daily_sales_cases)
  have "(\<Sum>item\<leftarrow>products st. real_of_int (fulfilled draws item) * (price (snd item) - cost (snd item)))
      = (\<Sum>item\<leftarrow>products st. real_of_int (fulfilled draws item) * price (snd item))
        - (\<Sum>item\<leftarrow>products st. real_of_int (fulfilled draws item) * cost (snd item))"
    by (rule sum_list_margin)
  then show ?thesis
    unfolding r sell_loop_totals [OF a] by (simp add: day_start_fields)
qed

subsection \<open>Several days\<close>

lemma run_days_Cons:
  assumes "run_days (d # ds) st = Inr (reps, st'')"
  obtains rep st' reps' where "process_daily_sales d st = Inr (rep, st')"
    and "run_days ds st' = Inr (reps', st'')" and "reps = rep # reps'"
  using assms by (auto split: sum.splits prod.splits)

lemma run_days_total:
  assumes "session_ok st"
  shows "\<exists>reps st'. run_days ds st = Inr (reps, st') \<and> session_ok st'"
  using assms
proof (induction ds arbitrary: st)
  case Nil
  then show ?case by simp
next
  case (Cons d ds)
  from process_daily_sales_total [OF Cons.prems] obtain rep st1 where
    step: "process_daily_sales d st = Inr (rep, st1)" by blast
  from process_daily_sales_ok [OF step Cons.prems] have "session_ok st1" .
  from Cons.IH [OF this] obtain reps st' where "run_days ds st1 = Inr (reps, st')" "session_ok st'"
    by blast
  with step show ?case by simp
qed

lemma sold_Cons:
  "sold k (rep # reps) = (case map_of (r_sales rep) k of None \<Rightarrow> 0 | Some e \<Rightarrow> sales e) + sold k reps"
  by (simp add: sold_def)

lemma sold_Nil: "sold k [] = 0"
  by (simp add: sold_def)

text \<open>
  A pending order with \<open>n\<close> days to go is still there after fewer than \<open>n\<close> days,
  counted down, with the stock reduced by the sales only; after exactly \<open>n\<close> days it
  is gone and its quantity is in the stock.
\<close>

lemma pending_order_run:
  assumes "run_days ds st = Inr (reps, st')" and "session_ok st"
    and "map_of (products st) k = Some p"
    and "map_of (pending_orders st) k = Some ord" and "1 \<le> days_remaining ord"
  shows "int (length ds) < days_remaining ord \<Longrightarrow>
           stock_of st' k = Some (current_stock p - sold k reps) \<and>
           map_of (pending_orders st') k =
             Some (ord\<lparr>days_remaining := days_remaining ord - int (length ds)\<rparr>)"
    and "int (length ds) = days_remaining ord \<Longrightarrow>
           stock_of st' k = Some (current_stock p - sold k reps + quantity ord) \<and>
           map_of (pending_orders st') k = None"
  using assms
proof (induction ds arbitrary: st p ord reps)
  case Nil
  { case 1 then show ?case by (simp add: stock_of_def sold_Nil) }
  { case 2 then show ?case by simp }
next
  case (Cons d ds)
  { case 1
    from 1(2) obtain rep st1 reps' where
      step: "process_daily_sales d st = Inr (rep, st1)"
      and rest: "run_days ds st1 = Inr (reps', st')" and reps: "reps = rep # reps'"
      by (rule run_days_Cons)
    from 1(3) have dist: "distinct (map fst (products st))" "distinct (map fst (pending_orders st))"
      by (simp_all add: session_ok_def)
    from 1(1) have w: "1 < days_remaining ord" by simp
    note entry = day_sales_entry [OF step dist(1) 1(4)]
    note after = day_order_wait [OF step dist 1(4,5) w]
    note ok1 = process_daily_sales_ok [OF step 1(3)]
    from 1(1) have "int (length ds) < days_remaining (ord\<lparr>days_remaining := days_remaining ord - 1\<rparr>)"
      by simp
    from Cons.IH(1) [OF this rest ok1 after] w show ?case
      by (simp add: reps sold_Cons entry) }
  { case 2
    from 2(2) obtain rep st1 reps' where
      step: "process_daily_sales d st = Inr (rep, st1)"
      and rest: "run_days ds st1 = Inr (reps', st')" and reps: "reps = rep # reps'"
      by (rule run_days_Cons)
    from 2(3) have dist: "distinct (map fst (products st))" "distinct (map fst (pending_orders st))"
      by (simp_all add: session_ok_def)
    note entry = day_sales_entry [OF step dist(1) 2(4)]
    note ok1 = process_daily_sales_ok [OF step 2(3)]
    show ?case
    proof (cases "days_remaining ord = 1")
      case True
      with 2(1) have "ds = []" by simp
      with rest have "st' = st1" "reps' = []" by simp_all
      with day_order_due [OF step dist 2(4,5)] True show ?thesis
        by (simp add: reps sold_Cons sold_Nil entry stock_of_def)
    next
      case False
      with 2(6) have w: "1 < days_remaining ord" by simp
      note after = day_order_wait [OF step dist 2(4,5) w]
      from 2(1) have "int (length ds) = days_remaining (ord\<lparr>days_remaining := days_remaining ord - 1\<rparr>)"
        by simp
      from Cons.IH(2) [OF this rest ok1 after] w show ?thesis
        by (simp add: reps sold_Cons entry)
    qed }
qed

section \<open>The order page\<close>

text \<open>The pricing loop: it fails on an unknown product only, and adds up the positive lines.\<close>

lemma price_orders_total:
  assumes "set (map fst orders) \<subseteq> set (map fst prods)"
  shows "\<exists>r. price_orders prods orders acc = Inr r"
  using assms
proof (induction orders arbitrary: acc)
  case Nil
  then show ?case by simp
next
  case (Cons item orders)
  obtain k q where item: "item = (k, q)" by (cases item)
  from Cons.prems item have "k \<in> set (map fst prods)" by simp
  from key_map_of_Some [OF this] obtain p where p: "map_of prods k = Some p" ..
  from Cons.prems have "set (map fst orders) \<subseteq> set (map fst prods)" by simp
  from Cons.IH [OF this] p show ?case unfolding item by simp
qed

lemma price_orders_keys:
  assumes "price_orders prods orders acc = Inr r"
  shows "set (map fst orders) \<subseteq> set (map fst prods)"
  using assms
proof (induction orders arbitrary: acc)
  case Nil
  then show ?case by simp
next
  case (Cons item orders)
  obtain k q where item: "item = (k, q)" by (cases item)
  from Cons.prems obtain p where p: "map_of prods k = Some p"
    unfolding item by (cases "map_of prods k") simp_all
  from Cons.prems p obtain acc' where "price_orders prods orders acc' = Inr r"
    unfolding item by (cases "0 < q") simp_all
  from Cons.IH [OF this] map_of_Some_key [OF p] show ?case unfolding item by simp
qed

lemma price_orders_result:
  assumes "price_orders prods orders acc = Inr r"
  shows "fst r = fst acc + batch_cost prods (filter (\<lambda>item. 0 < snd item) orders)"
    and "snd r = snd acc @ filter (\<lambda>item. 0 < snd item) orders"
  using assms
proof (induction orders arbitrary: acc)
  case Nil
  { case 1 then show ?case by (simp add: batch_cost_def) }
  { case 2 then show ?case by simp }
next
  case (Cons item orders)
  obtain k q where item: "item = (k, q)" by (cases item)
  { case 1
    then obtain p where p: "map_of prods k = Some p"
      unfolding item by (cases "map_of prods k") simp_all
    show ?case
    proof (cases "0 < q")
      case True
      with 1 p have "price_orders prods orders (fst acc + real_of_int q * cost p, snd acc @ [(k, q)]) = Inr r"
        unfolding item by simp
      from Cons.IH(1) [OF this] True p show ?thesis
        unfolding item by (simp add: batch_cost_def)
    next
      case False
      with 1 p have "price_orders prods orders acc = Inr r" unfolding item by simp
      from Cons.IH(1) [OF this] False show ?thesis unfolding item by simp
    qed }
  { case 2
    then obtain p where p: "map_of prods k = Some p"
      unfolding item by (cases "map_of prods k") simp_all
    show ?case
    proof (cases "0 < q")
      case True
      with 2 p have "price_orders prods orders (fst acc + real_of_int q * cost p, snd acc @ [(k, q)]) = Inr r"
        unfolding item by simp
      from Cons.IH(2) [OF this] True show ?thesis
        unfolding item by simp
    next
      case False
      with 2 p have "price_orders prods orders acc = Inr r" unfolding item by simp
      from Cons.IH(2) [OF this] False show ?thesis unfolding item by simp
    qed }
qed

text \<open>With no negative quantity, the positive lines carry the whole cost of the batch.\<close>

lemma batch_cost_positive_lines:
  assumes "\<forall>item \<in> set orders. 0 \<le> snd item"
  shows "batch_cost prods (filter (\<lambda>item. 0 < snd item) orders) = batch_cost prods orders"
  using assms
proof (induction orders)
  case Nil
  then show ?case by simp
next
  case (Cons item orders)
  then have IH: "batch_cost prods (filter (\<lambda>item. 0 < snd item) orders) = batch_cost prods orders"
    by simp
  from Cons.prems have "0 \<le> snd item" by simp
  then have "\<not> 0 < snd item \<Longrightarrow> snd item = 0" by simp
  with IH show ?case
    by (cases "0 < snd item") (simp_all add: batch_cost_def split: option.splits)
qed

lemma batch_cost_nonneg:
  assumes "\<forall>item \<in> set orders. 0 \<le> snd item"
    and "\<forall>item \<in> set prods. 0 \<le> cost (snd item)"
  shows "0 \<le> batch_cost prods orders"
proof -
  have "0 \<le> (case map_of prods (fst item) of None \<Rightarrow> 0
                | Some product \<Rightarrow> real_of_int (snd item) * cost product)"
    if "item \<in> set orders" for item
  proof (cases "map_of prods (fst item)")
    case None
    then show ?thesis by simp
  next
    case (Some product)
    from map_of_SomeD [OF Some] assms(2) have "0 \<le> cost product" by auto
    with assms(1) that Some show ?thesis by simp
  qed
  then show ?thesis unfolding batch_cost_def by (intro sum_list_nonneg) auto
qed

text \<open>The commit loop.\<close>

lemma commit_orders_total:
  assumes "set (map fst orders) \<subseteq> set (map fst prods)"
  shows "\<exists>pend'. commit_orders prods orders pend = Inr pend'"
  using assms
proof (induction orders arbitrary: pend)
  case Nil
  then show ?case by simp
next
  case (Cons item orders)
  obtain k q where item: "item = (k, q)" by (cases item)
  from Cons.prems item have "k \<in> set (map fst prods)" by simp
  from key_map_of_Some [OF this] obtain p where p: "map_of prods k = Some p" ..
  from Cons.prems have "set (map fst orders) \<subseteq> set (map fst prods)" by simp
  from Cons.IH [OF this] p show ?case unfolding item by simp
qed

lemma commit_orders_other:
  assumes "commit_orders prods orders pend = Inr pend'"
    and "\<forall>q. (k, q) \<in> set orders \<longrightarrow> \<not> 0 < q"
  shows "map_of pend' k = map_of pend k"
  using assms
proof (induction orders arbitrary: pend)
  case Nil
  then show ?case by simp
next
  case (Cons item orders)
  obtain k0 q0 where item: "item = (k0, q0)" by (cases item)
  from Cons.prems(2) have rest: "\<forall>q. (k, q) \<in> set orders \<longrightarrow> \<not> 0 < q" by simp
  show ?case
  proof (cases "0 < q0")
    case True
    with Cons.prems(2) item have ne: "k \<noteq> k0" by auto
    from Cons.prems(1) True obtain p where p: "map_of prods k0 = Some p"
      unfolding item by (cases "map_of prods k0") simp_all
    from Cons.prems(1) True p
    have "commit_orders prods orders
            (AList.update k0 \<lparr>quantity = q0, days_remaining = lead_time p,
                             order_cost = real_of_int q0 * cost p\<rparr> pend) = Inr pend'"
      unfolding item by simp
    from Cons.IH [OF this rest] ne show ?thesis by (simp add: update_conv')
  next
    case False
    with Cons.prems(1) have "commit_orders prods orders pend = Inr pend'" unfolding item by simp
    from Cons.IH [OF this rest] show ?thesis .
  qed
qed

lemma commit_orders_at:
  assumes "commit_orders prods orders pend = Inr pend'"
    and "distinct (map fst orders)" and "(k, q) \<in> set orders" and "0 < q"
    and "map_of prods k = Some p"
  shows "map_of pend' k =
           Some \<lparr>quantity = q, days_remaining = lead_time p, order_cost = real_of_int q * cost p\<rparr>"
  using assms
proof (induction orders arbitrary: pend)
  case Nil
  then show ?case by simp
next
  case (Cons item orders)
  obtain k0 q0 where item: "item = (k0, q0)" by (cases item)
  from Cons.prems(2) item have d: "distinct (map fst orders)" and kn: "k0 \<notin> set (map fst orders)"
    by simp_all
  show ?case
  proof (cases "(k, q) = (k0, q0)")
    case True
    with Cons.prems(1,4,5)
    have c: "commit_orders prods orders
            (AList.update k \<lparr>quantity = q, days_remaining = lead_time p,
                             order_cost = real_of_int q * cost p\<rparr> pend) = Inr pend'"
      unfolding item by simp
    from kn True have "\<forall>q'. (k, q') \<in> set orders \<longrightarrow> \<not> 0 < q'" by (auto simp: image_iff)
    from commit_orders_other [OF c this] show ?thesis by (simp add: update_conv')
  next
    case False
    with Cons.prems(3) item have mem: "(k, q) \<in> set orders" by auto
    from Cons.prems(1) obtain pend1 where "commit_orders prods orders pend1 = Inr pend'"
      unfolding item by (cases "0 < q0"; cases "map_of prods k0") simp_all
    from Cons.IH [OF this d mem Cons.prems(4,5)] show ?thesis .
  qed
qed

lemma commit_orders_keys:
  assumes "commit_orders prods orders pend = Inr pend'"
  shows "set (map fst pend') \<subseteq> set (map fst pend) \<union> set (map fst prods)"
    and "distinct (map fst pend) \<Longrightarrow> distinct (map fst pend')"
  using assms
proof (induction orders arbitrary: pend)
  case Nil
  { case 1 then show ?case by simp }
  { case 2 then show ?case by simp }
next
  case (Cons item orders)
  obtain k0 q0 where item: "item = (k0, q0)" by (cases item)
  { case 1
    show ?case
    proof (cases "0 < q0")
      case True
      with 1 obtain p where p: "map_of prods k0 = Some p"
        unfolding item by (cases "map_of prods k0") simp_all
      from 1 True p
      have "commit_orders prods orders
            (AList.update k0 \<lparr>quantity = q0, days_remaining = lead_time p,
                             order_cost = real_of_int q0 * cost p\<rparr> pend) = Inr pend'"
        unfolding item by simp
      from Cons.IH(1) [OF this] map_of_Some_key [OF p] show ?thesis
        by (auto simp: dom_update)
    next
      case False
      with 1 have "commit_orders prods orders pend = Inr pend'" unfolding item by simp
      from Cons.IH(1) [OF this] show ?thesis .
    qed }
  { case 2
    show ?case
    proof (cases "0 < q0")
      case True
      with 2(2) obtain p where p: "map_of prods k0 = Some p"
        unfolding item by (cases "map_of prods k0") simp_all
      from 2(2) True p
      have "commit_orders prods orders
            (AList.update k0 \<lparr>quantity = q0, days_remaining = lead_time p,
                             order_cost = real_of_int q0 * cost p\<rparr> pend) = Inr pend'"
        unfolding item by simp
      from Cons.IH(2) [OF distinct_update [OF 2(1)] this] show ?thesis .
    next
      case False
      with 2(2) have "commit_orders prods orders pend = Inr pend'" unfolding item by simp
      from Cons.IH(2) [OF 2(1) this] show ?thesis .
    qed }
qed

subsection \<open>The page as a whole\<close>

lemma step6_priced:
  assumes "set (map fst (player_orders st)) \<subseteq> set (map fst (products st))"
  shows "price_orders (products st) (player_orders st) (0, []) =
           Inr (batch_cost (products st) (filter (\<lambda>item. 0 < snd item) (player_orders st)),
                filter (\<lambda>item. 0 < snd item) (player_orders st))"
proof -
  from price_orders_total [OF assms] obtain r where
    r: "price_orders (products st) (player_orders st) (0, []) = Inr r" by blast
  from price_orders_result [OF r] have "r = (batch_cost (products st) (filter (\<lambda>item. 0 < snd item) (player_orders st)),
                filter (\<lambda>item. 0 < snd item) (player_orders st))"
    by (cases r) simp
  with r show ?thesis by simp
qed

lemma step6_insufficient:
  assumes "set (map fst (player_orders st)) \<subseteq> set (map fst (products st))"
    and "filter (\<lambda>item. 0 < snd item) (player_orders st) \<noteq> []"
    and "cash st < batch_cost (products st) (filter (\<lambda>item. 0 < snd item) (player_orders st))"
  shows "render_step_6_order clicked st = Inr (Some InsufficientFunds, st)"
  using assms(2,3) by (simp add: render_step_6_order_def step6_priced [OF assms(1)] Let_def)

lemma step6_nothing_to_order:
  assumes "set (map fst (player_orders st)) \<subseteq> set (map fst (products st))"
    and "filter (\<lambda>item. 0 < snd item) (player_orders st) = []"
  shows "render_step_6_order clicked st = Inr (None, st\<lparr>order_submitted := True\<rparr>)"
  using assms(2) by (simp add: render_step_6_order_def step6_priced [OF assms(1)] Let_def)

lemma step6_commit:
  assumes "set (map fst (player_orders st)) \<subseteq> set (map fst (products st))"
    and "filter (\<lambda>item. 0 < snd item) (player_orders st) \<noteq> []"
    and "batch_cost (products st) (filter (\<lambda>item. 0 < snd item) (player_orders st)) \<le> cash st"
  shows "\<exists>pend. commit_orders (products st) (player_orders st) (pending_orders st) = Inr pend \<and>
           render_step_6_order True st =
             Inr (Some (OrderSubmitted (batch_cost (products st) (filter (\<lambda>item. 0 < snd item) (player_orders st)))),
                  st\<lparr>pending_orders := pend,
                     cash := cash st - batch_cost (products st) (filter (\<lambda>item. 0 < snd item) (player_orders st)),
                     order_submitted := True\<rparr>)"
proof -
  from commit_orders_total [OF assms(1)] obtain pend where
    c: "commit_orders (products st) (player_orders st) (pending_orders st) = Inr pend" by blast
  with assms(2,3) show ?thesis
    by (simp add: render_step_6_order_def step6_priced [OF assms(1)] Let_def)
qed

text \<open>
  A click on the submit button with enough cash: what the session is afterwards, for a
  batch of non-negative quantities over products of the catalogue.
\<close>

lemma step6_submitted:
  assumes keys: "set (map fst (player_orders st)) \<subseteq> set (map fst (products st))"
    and nonneg: "\<forall>item \<in> set (player_orders st). 0 \<le> snd item"
    and dist: "distinct (map fst (player_orders st))"
    and funds: "batch_cost (products st) (player_orders st) \<le> cash st"
  shows "\<exists>msg st'. render_step_6_order True st = Inr (msg, st')
          \<and> cash st' = cash st - batch_cost (products st) (player_orders st)
          \<and> products st' = products st
          \<and> sales_history st' = sales_history st
          \<and> (session_ok st \<longrightarrow> session_ok st')
          \<and> (\<forall>k q p. (k, q) \<in> set (player_orders st) \<and> 0 < q \<and> map_of (products st) k = Some p \<longrightarrow>
                map_of (pending_orders st') k =
                  Some \<lparr>quantity = q, days_remaining = lead_time p, order_cost = real_of_int q * cost p\<rparr>)"
proof (cases "filter (\<lambda>item. 0 < snd item) (player_orders st) = []")
  case True
  then have "\<forall>k q. (k, q) \<in> set (player_orders st) \<longrightarrow> \<not> 0 < q"
    by (auto simp: filter_empty_conv)
  moreover from True batch_cost_positive_lines [OF nonneg, of "products st"]
  have "batch_cost (products st) (player_orders st) = 0" by (simp add: batch_cost_def)
  ultimately show ?thesis
    using step6_nothing_to_order [OF keys True, of True] by (auto simp: session_ok_def)
next
  case False
  note pos = batch_cost_positive_lines [OF nonneg, of "products st"]
  from funds pos
  have "batch_cost (products st) (filter (\<lambda>item. 0 < snd item) (player_orders st)) \<le> cash st"
    by simp
  from step6_commit [OF keys False this] obtain pend where
    c: "commit_orders (products st) (player_orders st) (pending_orders st) = Inr pend"
    and r: "render_step_6_order True st =
             Inr (Some (OrderSubmitted (batch_cost (products st) (player_orders st))),
                  st\<lparr>pending_orders := pend,
                     cash := cash st - batch_cost (products st) (player_orders st),
                     order_submitted := True\<rparr>)"
    unfolding pos by blast
  have ok: "session_ok (st\<lparr>pending_orders := pend,
                     cash := cash st - batch_cost (products st) (player_orders st),
                     order_submitted := True\<rparr>)" if "session_ok st"
  proof -
    from that have "set (map fst (pending_orders st)) \<subseteq> set (map fst (products st))"
      and "distinct (map fst (pending_orders st))"
      by (simp_all add: session_ok_def)
    with commit_orders_keys [OF c]
    have "set (map fst pend) \<subseteq> set (map fst (products st))" "distinct (map fst pend)"
      by blast+
    with that show ?thesis by (simp add: session_ok_def)
  qed
  have "map_of pend k =
          Some \<lparr>quantity = q, days_remaining = lead_time p, order_cost = real_of_int q * cost p\<rparr>"
    if "(k, q) \<in> set (player_orders st)" "0 < q" "map_of (products st) k = Some p" for k q p
    using commit_orders_at [OF c dist that] .
  with r ok show ?thesis by simp
qed

subsection \<open>Submission and arrival\<close>

lemma initial_session_ok: "session_ok initialize_game"
  by (simp add: session_ok_def initialize_game_def create_products_def create_sales_history_def)

lemma session_ok_player_orders [simp]: "session_ok (st\<lparr>player_orders := os\<rparr>) = session_ok st"
  by (simp add: session_ok_def)

lemma session_ok_cash [simp]: "session_ok (st\<lparr>cash := c\<rparr>) = session_ok st"
  by (simp add: session_ok_def)

lemma map_of_create_products:
  "map_of create_products ''WATER'' = Some \<lparr>ident = ''WATER'', name = ''mineral water'', icon = ''water'',
        price = 3, cost = 1, current_stock = 120, daily_demand = 30,
        lead_time = 3, order_interval = 3\<rparr>"
  "map_of create_products ''MILK'' = Some \<lparr>ident = ''MILK'', name = ''milk'', icon = ''milk'',
        price = 12, cost = 7, current_stock = 50, daily_demand = 15,
        lead_time = 2, order_interval = 5\<rparr>"
  by (simp_all add: create_products_def)

text \<open>
  After a successful submission the order of a product waits for its lead time: the
  shared core of the life-cycle properties.
\<close>


lemma submitted_order_run:
  assumes "session_ok st"
    and "set (map fst (player_orders st)) \<subseteq> set (map fst (products st))"
    and "\<forall>item \<in> set (player_orders st). 0 \<le> snd item"
    and "distinct (map fst (player_orders st))"
    and "batch_cost (products st) (player_orders st) \<le> cash st"
    and "(k, q) \<in> set (player_orders st)" and "0 < q"
    and "map_of (products st) k = Some p" and "1 \<le> lead_time p"
  shows "\<exists>msg st1. render_step_6_order True st = Inr (msg, st1)
     \<and> cash st1 = cash st - batch_cost (products st) (player_orders st)
     \<and> map_of (pending_orders st1) k =
          Some \<lparr>quantity = q, days_remaining = lead_time p, order_cost = real_of_int q * cost p\<rparr>
     \<and> (\<forall>ds. int (length ds) = lead_time p \<longrightarrow>
          (\<exists>reps st'. run_days ds st1 = Inr (reps, st')
             \<and> stock_of st' k = Some (current_stock p - sold k reps + q)
             \<and> map_of (pending_orders st') k = None))
     \<and> (\<forall>ds. int (length ds) < lead_time p \<longrightarrow>
          (\<exists>reps st'. run_days ds st1 = Inr (reps, st')
             \<and> stock_of st' k = Some (current_stock p - sold k reps)
             \<and> map_of (pending_orders st') k =
                  Some \<lparr>quantity = q, days_remaining = lead_time p - int (length ds),
                        order_cost = real_of_int q * cost p\<rparr>))"
proof -
  let ?ord = "\<lparr>quantity = q, days_remaining = lead_time p, order_cost = real_of_int q * cost p\<rparr>"
  from step6_submitted [OF assms(2,3,4,5)] assms(1,6,7,8) obtain msg st1 where
    r: "render_step_6_order True st = Inr (msg, st1)"
    and c: "cash st1 = cash st - batch_cost (products st) (player_orders st)"
    and pr: "products st1 = products st" and ok: "session_ok st1"
    and pe: "map_of (pending_orders st1) k = Some ?ord"
    by blast
  from assms(8) pr have p1: "map_of (products st1) k = Some p" by simp
  from assms(9) have d: "1 \<le> days_remaining ?ord" by simp
  have full: "\<exists>reps st'. run_days ds st1 = Inr (reps, st')
             \<and> stock_of st' k = Some (current_stock p - sold k reps + q)
             \<and> map_of (pending_orders st') k = None"
    if "int (length ds) = lead_time p" for ds
  proof -
    from run_days_total [OF ok, of ds] obtain reps st' where
      run: "run_days ds st1 = Inr (reps, st')" by blast
    from that have "int (length ds) = days_remaining ?ord" by simp
    from pending_order_run(2) [OF run ok p1 pe d this] run show ?thesis by simp
  qed
  have part: "\<exists>reps st'. run_days ds st1 = Inr (reps, st')
             \<and> stock_of st' k = Some (current_stock p - sold k reps)
             \<and> map_of (pending_orders st') k =
                  Some \<lparr>quantity = q, days_remaining = lead_time p - int (length ds),
                        order_cost = real_of_int q * cost p\<rparr>"
    if "int (length ds) < lead_time p" for ds
  proof -
    from run_days_total [OF ok, of ds] obtain reps st' where
      run: "run_days ds st1 = Inr (reps, st')" by blast
    from that have "int (length ds) < days_remaining ?ord" by simp
    from pending_order_run(1) [OF run ok p1 pe d this] run show ?thesis by simp
  qed
  from r c pe full part show ?thesis by blast
qed

section \<open>Score and first day\<close>

lemma sell_loop_stockouts:
  assumes "sell_loop draws items acc = Inr acc'"
  shows "acc_stockouts acc' = [] \<longleftrightarrow>
           acc_stockouts acc = [] \<and>
           (\<forall>item \<in> set items.
              \<not> fulfilled draws item < draw_demand (daily_demand (snd item)) (draws (fst item)))"
  using assms
proof (induction items arbitrary: acc)
  case Nil
  then show ?case by simp
next
  case (Cons item items)
  obtain k0 p0 where item: "item = (k0, p0)" by (cases item)
  from Cons.prems obtain acc1 where
    step: "sell_product draws (k0, p0) acc = Inr acc1"
    and rest: "sell_loop draws items acc1 = Inr acc'"
    unfolding item by (auto split: sum.splits)
  show ?case
    unfolding Cons.IH [OF rest] sell_product_fields(6) [OF step] item by auto
qed

lemma score_of_day_nonneg: "0 \<le> score_of_day day_profit outs"
  by (simp add: score_of_day_def Let_def)

lemma score_of_day_eq:
  "score_of_day day_profit outs =
     (if 0 < day_profit then day_profit / 10 else 0) + (if outs = [] then 50 else 0)"
  by (simp add: score_of_day_def Let_def)

lemma day_score:
  assumes "process_daily_sales draws st = Inr (rep, st')"
  shows "score st' = score st + r_score_today rep"
    and "r_score_today rep =
           (if 0 < r_profit rep then r_profit rep / 10 else 0) + (if r_stockouts rep = [] then 50 else 0)"
    and "0 \<le> r_score_today rep"
    and "r_stockouts rep = [] \<longleftrightarrow>
           (\<forall>item \<in> set (products st).
              \<not> fulfilled draws item < draw_demand (daily_demand (snd item)) (draws (fst item)))"
proof -
  from assms obtain acc where
    a: "sell_loop draws (products st) (day_start st) = Inr acc"
    and t: "r_score_today rep = score_of_day (r_profit rep) (acc_stockouts acc)"
    and o: "r_stockouts rep = acc_stockouts acc"
    and s: "score st' = score st + r_score_today rep"
    by (rule process_daily_sales_cases)
  show "score st' = score st + r_score_today rep" by (rule s)
  show "r_score_today rep =
           (if 0 < r_profit rep then r_profit rep / 10 else 0) + (if r_stockouts rep = [] then 50 else 0)"
    unfolding t o by (rule score_of_day_eq)
  show "0 \<le> r_score_today rep" unfolding t by (rule score_of_day_nonneg)
  show "r_stockouts rep = [] \<longleftrightarrow>
           (\<forall>item \<in> set (products st).
              \<not> fulfilled draws item < draw_demand (daily_demand (snd item)) (draws (fst item)))"
    unfolding o sell_loop_stockouts [OF a] by (simp add: day_start_fields)
qed

lemma step6_score:
  assumes "render_step_6_order clicked st = Inr (msg, st')"
  shows "score st' = score st"
proof -
  from assms obtain t details where
    p: "price_orders (products st) (player_orders st) (0, []) = Inr (t, details)"
    by (cases "price_orders (products st) (player_orders st) (0, [])")
       (auto simp: render_step_6_order_def)
  from assms show ?thesis
    unfolding render_step_6_order_def p
    by (auto simp: Let_def split: if_splits sum.splits)
qed

lemma run_events_score:
  assumes "run_events evs st = Inr st'"
  shows "score st \<le> score st'"
  using assms
proof (induction evs arbitrary: st)
  case Nil
  then show ?case by simp
next
  case (Cons ev evs)
  show ?case
  proof (cases ev)
    case (DayEvent draws)
    with Cons.prems obtain rep st1 where
      step: "process_daily_sales draws st = Inr (rep, st1)"
      and rest: "run_events evs st1 = Inr st'"
      by (auto split: sum.splits)
    from day_score(1,3) [OF step] Cons.IH [OF rest] show ?thesis by simp
  next
    case (QuizEvent answer)
    with Cons.prems have "run_events evs (submit_leadtime answer st) = Inr st'" by simp
    from Cons.IH [OF this] show ?thesis by (simp add: submit_leadtime_def split: if_splits)
  next
    case (EnterOrder product_id qty)
    with Cons.prems have "run_events evs (enter_order product_id qty st) = Inr st'" by simp
    from Cons.IH [OF this] show ?thesis by (simp add: enter_order_def)
  next
    case (OrderEvent clicked)
    with Cons.prems obtain msg st1 where
      step: "render_step_6_order clicked st = Inr (msg, st1)"
      and rest: "run_events evs st1 = Inr st'"
      by (auto split: sum.splits)
    from step6_score [OF step] Cons.IH [OF rest] show ?thesis by simp
  qed
qed

lemma first_day_unit_draws:
  "process_daily_sales (\<lambda>_. 1) initialize_game =
     Inr (\<lparr>r_day = 1,
         r_sales =
           [(''WATER'', \<lparr>demand = 30, sales = 30, revenue = 90, profit = 60, stock_after = 90\<rparr>),
            (''BREAD'', \<lparr>demand = 20, sales = 20, revenue = 160, profit = 80, stock_after = 40\<rparr>),
            (''MILK'', \<lparr>demand = 15, sales = 15, revenue = 180, profit = 75, stock_after = 35\<rparr>)],
         r_total_revenue = 430, r_total_cost = 215, r_profit = 215,
         r_stockouts = [], r_cash = 10215, r_score_today = 143 / 2\<rparr>,
       initialize_game\<lparr>day := 2, cash := 10215, total_revenue := 430, total_profit := 215,
         products :=
           [(''WATER'', \<lparr>ident = ''WATER'', name = ''mineral water'', icon = ''water'',
                price = 3, cost = 1, current_stock = 90, daily_demand = 30,
                lead_time = 3, order_interval = 3\<rparr>),
            (''BREAD'', \<lparr>ident = ''BREAD'', name = ''bread'', icon = ''bread'',
                price = 8, cost = 4, current_stock = 40, daily_demand = 20,
                lead_time = 5, order_interval = 5\<rparr>),
            (''MILK'', \<lparr>ident = ''MILK'', name = ''milk'', icon = ''milk'',
                price = 12, cost = 7, current_stock = 35, daily_demand = 15,
                lead_time = 2, order_interval = 5\<rparr>)],
         sales_history :=
           [(''WATER'', [32, 30, 35, 29, 31, 33, 30]),
            (''BREAD'', [28, 15, 35, 10, 30, 25, 20]),
            (''MILK'', [16, 15, 13, 17, 15, 16, 15])],
         daily_reports :=
           [\<lparr>r_day = 1,
               r_sales =
                 [(''WATER'', \<lparr>demand = 30, sales = 30, revenue = 90, profit = 60, stock_after = 90\<rparr>),
                  (''BREAD'', \<lparr>demand = 20, sales = 20, revenue = 160, profit = 80, stock_after = 40\<rparr>),
                  (''MILK'', \<lparr>demand = 15, sales = 15, revenue = 180, profit = 75, stock_after = 35\<rparr>)],
               r_total_revenue = 430, r_total_cost = 215, r_profit = 215,
               r_stockouts = [], r_cash = 10215, r_score_today = 143 / 2\<rparr>],
         score := 143 / 2\<rparr>)"
    by (simp add: process_daily_sales_def day_start_def initialize_game_def create_products_def
          create_sales_history_def sell_product_def draw_demand_def py_int_def push_history_def
          score_of_day_def Let_def)

lemma draw_demand_positive: "1 \<le> draw_demand base_demand u"
  by (simp add: draw_demand_def)

lemma fulfilled_nonneg:
  assumes "0 \<le> current_stock (snd item)"
  shows "0 \<le> fulfilled draws item"
  using assms draw_demand_positive [of "daily_demand (snd item)" "draws (fst item)"]
  by (simp add: fulfilled_def)

section \<open>The normal distribution function and its quantile\<close>

text \<open>
  The area function is differentiable with derivative \<open>exp (- x\<^sup>2 / 2)\<close>, hence
  strictly increasing and continuous; it is odd and bounded, so the distribution
  function is a strictly increasing continuous map of the real line onto the open
  unit interval, and the quantile is its inverse there.
\<close>

lemma gauss_odd_terms_summable:
  "summable (\<lambda>k. (- 1 / 2) ^ k / (fact k * real (2 * k + 1)) * x ^ (2 * k + 1))"
proof (rule summable_comparison_test')
  show "summable (\<lambda>k. \<bar>x\<bar> * (inverse (fact k) * (x\<^sup>2 / 2) ^ k))"
    by (intro summable_mult summable_exp)
  fix k :: nat
  have "norm ((- 1 / 2) ^ k / (fact k * real (2 * k + 1)) * x ^ (2 * k + 1))
      = (1 / 2) ^ k / (fact k * real (2 * k + 1)) * (\<bar>x\<bar> * (x\<^sup>2) ^ k)"
    by (simp add: abs_mult power_abs power_mult abs_divide power_divide)
  also have "\<dots> \<le> (1 / 2) ^ k / fact k * (\<bar>x\<bar> * (x\<^sup>2) ^ k)"
  proof (rule mult_right_mono)
    have "(fact k :: real) * 1 \<le> fact k * real (2 * k + 1)"
      by (intro mult_left_mono) simp_all
    then show "(1 / 2) ^ k / (fact k * real (2 * k + 1)) \<le> (1 / 2 :: real) ^ k / fact k"
      by (intro frac_le) simp_all
    show "0 \<le> \<bar>x\<bar> * (x\<^sup>2) ^ k" by simp
  qed
  also have "\<dots> = \<bar>x\<bar> * (inverse (fact k) * (x\<^sup>2 / 2) ^ k)"
    by (simp add: field_simps power_divide)
  finally show "norm ((- 1 / 2) ^ k / (fact k * real (2 * k + 1)) * x ^ (2 * k + 1))
      \<le> \<bar>x\<bar> * (inverse (fact k) * (x\<^sup>2 / 2) ^ k)" .
qed

lemma gauss_series_summable: "summable (\<lambda>n. gauss_coeff n * x ^ n)"
proof -
  let ?g = "\<lambda>k. (- 1 / 2) ^ k / (fact k * real (2 * k + 1)) * x ^ (2 * k + 1)"
  from gauss_odd_terms_summable [of x] have "?g sums (suminf ?g)" by (rule summable_sums)
  then have "(\<lambda>n. if even n then 0 else ?g ((n - 1) div 2)) sums (suminf ?g)" by (rule sums_if')
  moreover have "(if even n then 0 else ?g ((n - 1) div 2)) = gauss_coeff n * x ^ n" for n
    by (auto simp: gauss_coeff_def elim!: oddE)
  ultimately have "(\<lambda>n. gauss_coeff n * x ^ n) sums (suminf ?g)" by simp
  then show ?thesis by (rule sums_summable)
qed

lemma diffs_gauss_coeff:
  "diffs gauss_coeff n = (if even n then (- 1 / 2) ^ (n div 2) / fact (n div 2) else 0)"
  by (simp add: diffs_def gauss_coeff_def)

lemma gauss_derivative_series: "(\<lambda>n. diffs gauss_coeff n * x ^ n) sums exp (- x\<^sup>2 / 2)"
proof -
  let ?f = "\<lambda>k. (- x\<^sup>2 / 2) ^ k /\<^sub>R fact k"
  have "?f sums exp (- x\<^sup>2 / 2)" by (rule exp_converges)
  moreover have "(\<lambda>k::nat. 0::real) sums 0" by simp
  ultimately have "(\<lambda>n. if even n then ?f (n div 2) else 0) sums (0 + exp (- x\<^sup>2 / 2))"
    by (rule sums_if [rotated])
  moreover have "(if even n then ?f (n div 2) else 0) = diffs gauss_coeff n * x ^ n" for n
  proof (cases "even n")
    case True
    then obtain k where n: "n = 2 * k" by (elim evenE)
    have "(- x\<^sup>2 / 2) ^ k = (- 1 / 2) ^ k * x ^ (2 * k)"
      by (simp add: power_mult power_mult_distrib [symmetric])
    then show ?thesis by (simp add: diffs_gauss_coeff n field_simps)
  next
    case False
    then show ?thesis by (simp add: diffs_gauss_coeff)
  qed
  ultimately show ?thesis by simp
qed

lemma DERIV_gauss_area: "(gauss_area has_field_derivative exp (- x\<^sup>2 / 2)) (at x)"
proof -
  have "((\<lambda>x. \<Sum>n. gauss_coeff n * x ^ n) has_field_derivative (\<Sum>n. diffs gauss_coeff n * x ^ n)) (at x)"
    by (rule termdiffs_strong_converges_everywhere) (rule gauss_series_summable)
  moreover have "(\<Sum>n. diffs gauss_coeff n * x ^ n) = exp (- x\<^sup>2 / 2)"
    using gauss_derivative_series [of x] by (rule sums_unique [symmetric])
  moreover have "(\<lambda>x. \<Sum>n. gauss_coeff n * x ^ n) = gauss_area"
    by (rule ext) (simp add: gauss_area_def)
  ultimately show ?thesis by simp
qed


lemma gauss_area_zero: "gauss_area 0 = 0"
proof -
  have "gauss_coeff n * 0 ^ n = 0" for n
  proof (cases "n = 0")
    case True
    then show ?thesis by (simp add: gauss_coeff_def)
  next
    case False
    then show ?thesis by simp
  qed
  then have "(\<lambda>n. gauss_coeff n * 0 ^ n) = (\<lambda>n. 0)" by (intro ext)
  then show ?thesis unfolding gauss_area_def by simp
qed

lemma gauss_area_minus: "gauss_area (- x) = - gauss_area x"
proof -
  have "gauss_coeff n * (- x) ^ n = - (gauss_coeff n * x ^ n)" for n
    by (cases "even n") (simp_all add: gauss_coeff_def)
  then have "gauss_area (- x) = (\<Sum>n. - (gauss_coeff n * x ^ n))"
    by (simp add: gauss_area_def)
  also have "\<dots> = - (\<Sum>n. gauss_coeff n * x ^ n)"
    by (rule suminf_minus) (rule gauss_series_summable)
  finally show ?thesis by (simp add: gauss_area_def)
qed

lemma gauss_area_strict_mono:
  assumes "a < b"
  shows "gauss_area a < gauss_area b"
proof (rule DERIV_pos_imp_increasing [OF assms])
  fix x :: real
  have "0 < exp (- x\<^sup>2 / 2)" by simp
  with DERIV_gauss_area [of x]
  show "\<exists>y. (gauss_area has_real_derivative y) (at x) \<and> 0 < y" by blast
qed



lemma gauss_area_bound: "gauss_area x < exp (1 / 2)"
proof (cases "0 \<le> x")
  case True
  let ?h = "\<lambda>t. gauss_area t + exp (1 / 2 - t)"
  have "?h x \<le> ?h 0"
  proof (rule DERIV_nonpos_imp_nonincreasing [OF True])
    fix t :: real
    have d: "(?h has_real_derivative (exp (- t\<^sup>2 / 2) + exp (1 / 2 - t) * (0 - 1))) (at t)"
      by (intro DERIV_add DERIV_gauss_area DERIV_chain2 [OF DERIV_exp] DERIV_diff DERIV_const DERIV_ident)
    have "0 \<le> (t - 1)\<^sup>2" by simp
    then have "- t\<^sup>2 / 2 \<le> 1 / 2 - t" by (simp add: power2_eq_square algebra_simps)
    then have "exp (- t\<^sup>2 / 2) \<le> exp (1 / 2 - t)" by simp
    then have "exp (- t\<^sup>2 / 2) + exp (1 / 2 - t) * (0 - 1) \<le> 0" by simp
    with d show "\<exists>y. (?h has_real_derivative y) (at t) \<and> y \<le> 0" by blast
  qed
  then have "gauss_area x + exp (1 / 2 - x) \<le> exp (1 / 2)" by (simp add: gauss_area_zero)
  moreover have "0 < exp (1 / 2 - x)" by simp
  ultimately show ?thesis by linarith
next
  case False
  then have "x < 0" by simp
  from gauss_area_strict_mono [OF this] have "gauss_area x < 0" by (simp add: gauss_area_zero)
  also have "(0::real) < exp (1 / 2)" by simp
  finally show ?thesis .
qed

lemma gauss_area_bdd: "bdd_above (range gauss_area)"
proof (rule bdd_aboveI)
  fix y assume "y \<in> range gauss_area"
  then obtain x where "y = gauss_area x" by blast
  with gauss_area_bound [of x] show "y \<le> exp (1 / 2)" by simp
qed

lemma gauss_area_less_half_mass: "gauss_area x < gauss_half_mass"
proof -
  have "gauss_area x < gauss_area (x + 1)" by (rule gauss_area_strict_mono) simp
  also have "gauss_area (x + 1) \<le> gauss_half_mass"
    unfolding gauss_half_mass_def by (rule cSup_upper [OF _ gauss_area_bdd]) simp
  finally show ?thesis .
qed

lemma gauss_area_greater_minus_half_mass: "- gauss_half_mass < gauss_area x"
  using gauss_area_less_half_mass [of "- x"] by (simp add: gauss_area_minus)

lemma gauss_half_mass_positive: "0 < gauss_half_mass"
  using gauss_area_less_half_mass [of 0] by (simp add: gauss_area_zero)






lemma std_normal_cdf_range: "0 < std_normal_cdf x" "std_normal_cdf x < 1"
proof -
  from gauss_half_mass_positive have m: "0 < 2 * gauss_half_mass" by simp
  from gauss_area_greater_minus_half_mass [of x] m
  have "- (1 / 2) < gauss_area x / (2 * gauss_half_mass)"
    by (simp add: field_simps)
  then show "0 < std_normal_cdf x" by (simp add: std_normal_cdf_def)
  from gauss_area_less_half_mass [of x] m
  have "gauss_area x / (2 * gauss_half_mass) < 1 / 2"
    by (simp add: field_simps)
  then show "std_normal_cdf x < 1" by (simp add: std_normal_cdf_def)
qed






section \<open>Safety stock\<close>






section \<open>Sound sessions\<close>

lemma fulfilled_le_stock: "fulfilled draws item \<le> current_stock (snd item)"
  by (simp add: fulfilled_def)

lemma day_profit_nonneg:
  assumes "process_daily_sales draws st = Inr (rep, st')"
    and "\<forall>item \<in> set (products st).
           cost (snd item) \<le> price (snd item) \<and> 0 \<le> current_stock (snd item)"
  shows "0 \<le> r_profit rep"
proof -
  have "0 \<le> real_of_int (fulfilled draws item) * (price (snd item) - cost (snd item))"
    if "item \<in> set (products st)" for item
  proof -
    from assms(2) that have "cost (snd item) \<le> price (snd item)" "0 \<le> current_stock (snd item)"
      by simp_all
    with fulfilled_nonneg [of item draws] show ?thesis by simp
  qed
  then show ?thesis unfolding day_profit [OF assms(1)] by (intro sum_list_nonneg) auto
qed

lemma day_products_keys:
  assumes "process_daily_sales draws st = Inr (rep, st')"
  shows "set (map fst (products st')) = set (map fst (products st))"
proof -
  from assms obtain acc where
    a: "sell_loop draws (products st) (day_start st) = Inr acc"
    and b: "arrive_loop (map fst (pending_orders st)) (acc_products acc, pending_orders st)
       = Inr (products st', pending_orders st')"
    by (rule process_daily_sales_cases)
  from sell_loop_keys(1) [OF a] arrive_loop_keys(1) [OF b] show ?thesis
    by (simp add: day_start_fields)
qed

lemma day_pending_entry:
  assumes "process_daily_sales draws st = Inr (rep, st')"
    and "distinct (map fst (pending_orders st))"
    and "map_of (pending_orders st') k = Some ord'"
  shows "\<exists>ord. map_of (pending_orders st) k = Some ord \<and> quantity ord' = quantity ord"
proof -
  from assms(1) obtain acc where
    a: "sell_loop draws (products st) (day_start st) = Inr acc"
    and b: "arrive_loop (map fst (pending_orders st)) (acc_products acc, pending_orders st)
       = Inr (products st', pending_orders st')"
    by (rule process_daily_sales_cases)
  show ?thesis
  proof (cases "map_of (pending_orders st) k")
    case None
    then have "k \<notin> set (map fst (pending_orders st))" by (simp add: map_of_eq_None_keys)
    from arrive_loop_other [OF b this] None assms(3) show ?thesis by simp
  next
    case (Some ord)
    then have k: "k \<in> set (map fst (pending_orders st))" by (rule map_of_Some_key)
    show ?thesis
    proof (cases "days_remaining ord \<le> 1")
      case True
      from arrive_loop_due [OF b assms(2) k Some True] assms(3) show ?thesis by simp
    next
      case False
      then have "1 < days_remaining ord" by simp
      from arrive_loop_wait [OF b assms(2) k Some this] assms(3) Some show ?thesis by auto
    qed
  qed
qed

lemma day_product_entry:
  assumes "process_daily_sales draws st = Inr (rep, st')" and "session_ok st"
    and "map_of (products st') k = Some p'"
  shows "\<exists>p d. map_of (products st) k = Some p \<and>
           p' = p\<lparr>current_stock := current_stock p - fulfilled draws (k, p) + d\<rparr> \<and>
           (d = 0 \<or> (\<exists>ord. map_of (pending_orders st) k = Some ord \<and> d = quantity ord))"
proof -
  from assms(2) have dist: "distinct (map fst (products st))" "distinct (map fst (pending_orders st))"
    by (simp_all add: session_ok_def)
  from assms(3) have "k \<in> set (map fst (products st'))" by (rule map_of_Some_key)
  with day_products_keys [OF assms(1)] have "k \<in> set (map fst (products st))" by blast
  from key_map_of_Some [OF this] obtain p where p: "map_of (products st) k = Some p" ..
  show ?thesis
  proof (cases "map_of (pending_orders st) k")
    case None
    from day_no_order(1) [OF assms(1) dist(1) p None] assms(3)
    have "p' = p\<lparr>current_stock := current_stock p - fulfilled draws (k, p) + 0\<rparr>" by simp
    with p show ?thesis by blast
  next
    case (Some ord)
    show ?thesis
    proof (cases "days_remaining ord \<le> 1")
      case True
      from day_order_due(1) [OF assms(1) dist p Some True] assms(3)
      have "p' = p\<lparr>current_stock := current_stock p - fulfilled draws (k, p) + quantity ord\<rparr>"
        by simp
      with p Some show ?thesis by blast
    next
      case False
      then have "1 < days_remaining ord" by simp
      from day_order_wait(1) [OF assms(1) dist p Some this] assms(3)
      have "p' = p\<lparr>current_stock := current_stock p - fulfilled draws (k, p) + 0\<rparr>" by simp
      with p show ?thesis by blast
    qed
  qed
qed

lemma process_daily_sales_sound:
  assumes "process_daily_sales draws st = Inr (rep, st')" and "session_sound st"
  shows "session_sound st'"
proof -
  from assms(2) have ok: "session_ok st" and cash: "0 \<le> cash st"
    and prods: "\<forall>item \<in> set (products st).
        0 \<le> cost (snd item) \<and> cost (snd item) \<le> price (snd item) \<and>
        0 \<le> current_stock (snd item)"
    and pend: "\<forall>item \<in> set (pending_orders st). 0 \<le> quantity (snd item)"
    and orders: "set (map fst (player_orders st)) \<subseteq> set (map fst (products st))"
      "\<forall>item \<in> set (player_orders st). 0 \<le> snd item"
      "distinct (map fst (player_orders st))"
    by (simp_all add: session_sound_def)
  from ok have dist: "distinct (map fst (products st))" "distinct (map fst (pending_orders st))"
    by (simp_all add: session_ok_def)
  note ok' = process_daily_sales_ok [OF assms(1) ok]
  then have dist': "distinct (map fst (products st'))" "distinct (map fst (pending_orders st'))"
    by (simp_all add: session_ok_def)
  have c: "cash st' = cash st + r_profit rep"
    by (rule process_daily_sales_cases [OF assms(1)])
  have po: "player_orders st' = player_orders st"
    by (rule process_daily_sales_cases [OF assms(1)])
  from prods have "\<forall>item \<in> set (products st).
           cost (snd item) \<le> price (snd item) \<and> 0 \<le> current_stock (snd item)" by blast
  from day_profit_nonneg [OF assms(1) this] cash c have cash': "0 \<le> cash st'" by simp
  have prods': "0 \<le> cost (snd item) \<and> cost (snd item) \<le> price (snd item) \<and>
        0 \<le> current_stock (snd item)" if "item \<in> set (products st')" for item
  proof -
    obtain k p' where item: "item = (k, p')" by (cases item)
    with that dist'(1) have "map_of (products st') k = Some p'" by simp
    from day_product_entry [OF assms(1) ok this] obtain p d where
      p: "map_of (products st) k = Some p"
      and p': "p' = p\<lparr>current_stock := current_stock p - fulfilled draws (k, p) + d\<rparr>"
      and d: "d = 0 \<or> (\<exists>ord. map_of (pending_orders st) k = Some ord \<and> d = quantity ord)"
      by blast
    from map_of_SomeD [OF p] prods
    have q: "0 \<le> cost p" "cost p \<le> price p" "0 \<le> current_stock p" by auto
    have "0 \<le> d"
    proof (cases "d = 0")
      case True
      then show ?thesis by simp
    next
      case False
      with d obtain ord where o: "map_of (pending_orders st) k = Some ord" "d = quantity ord"
        by blast
      from map_of_SomeD [OF o(1)] pend have "0 \<le> quantity (snd (k, ord))" by blast
      with o(2) show ?thesis by simp
    qed
    moreover from fulfilled_le_stock [of draws "(k, p)"]
    have "0 \<le> current_stock p - fulfilled draws (k, p)" by simp
    ultimately show ?thesis using q by (simp add: item p')
  qed
  have pend': "0 \<le> quantity (snd item)" if "item \<in> set (pending_orders st')" for item
  proof -
    obtain k ord' where item: "item = (k, ord')" by (cases item)
    with that dist'(2) have "map_of (pending_orders st') k = Some ord'" by simp
    from day_pending_entry [OF assms(1) dist(2) this] obtain ord where
      "map_of (pending_orders st) k = Some ord" "quantity ord' = quantity ord" by blast
    moreover from map_of_SomeD [OF this(1)] pend have "0 \<le> quantity (snd (k, ord))" by blast
    ultimately show ?thesis by (simp add: item)
  qed
  from orders(1) have o1: "set (map fst (player_orders st')) \<subseteq> set (map fst (products st'))"
    unfolding po day_products_keys [OF assms(1)] .
  from orders(2,3) have o2: "\<forall>item \<in> set (player_orders st'). 0 \<le> snd item"
    "distinct (map fst (player_orders st'))"
    unfolding po .
  from prods' have p1: "\<forall>item \<in> set (products st').
        0 \<le> cost (snd item) \<and> cost (snd item) \<le> price (snd item) \<and>
        0 \<le> current_stock (snd item)" by blast
  from pend' have p2: "\<forall>item \<in> set (pending_orders st'). 0 \<le> quantity (snd item)" by blast
  show ?thesis
    unfolding session_sound_def
    using ok' cash' p1 p2 o1 o2 by (intro conjI)
qed

lemma initial_session_sound: "session_sound initialize_game"
  by (simp add: session_sound_def initial_session_ok)
     (simp add: initialize_game_def create_products_def)

section \<open>The reorder decision\<close>

text \<open>
  C7. The reorder decision is non-strict: for a product of the catalogue,
  \<open>should_reorder\<close> answers true for every reorder point at or above the current
  stock (so also when the stock equals the reorder point), and false for every
  reorder point strictly below it (so also when the stock is the reorder point plus
  one).
\<close>

theorem should_reorder_non_strict:
  assumes "map_of (products st) product_id = Some product"
  shows "(real_of_int (current_stock product) \<le> reorder_point
            \<longrightarrow> should_reorder st product_id reorder_point = Inr True)
       \<and> (reorder_point < real_of_int (current_stock product)
            \<longrightarrow> should_reorder st product_id reorder_point = Inr False)
       \<and> should_reorder st product_id (real_of_int (current_stock product)) = Inr True
       \<and> should_reorder st product_id (real_of_int (current_stock product) - 1) = Inr False"
  using assms by (simp add: should_reorder_def)

theorem should_reorder_non_strict_witness:
  "should_reorder initialize_game ''WATER'' 120 = Inr True
   \<and> should_reorder initialize_game ''WATER'' 119 = Inr False"
  using should_reorder_non_strict [of initialize_game "''WATER''" _ 120]
  by (simp add: initialize_game_def create_products_def)

section \<open>Order submission\<close>

text \<open>
  C1. A batch of orders (non-negative quantities for products of the catalogue, at
  most one entry per product) submitted with non-negative cash: if the total cost of
  the batch, the sum over all entries of quantity times unit cost, exceeds the cash,
  the page reports insufficient funds and the session is unchanged (the cash is as
  before and no pending order is created), whether or not the button is pressed; if
  the total cost is within the cash, pressing the button commits every entry with a
  positive quantity as a pending order, and the cash is debited by exactly the total
  cost.
\<close>

theorem order_batch_atomic:
  assumes "set (map fst (player_orders st)) \<subseteq> set (map fst (products st))"
    and "\<forall>item \<in> set (player_orders st). 0 \<le> snd item"
    and "distinct (map fst (player_orders st))"
    and "0 \<le> cash st"
  shows "(cash st < batch_cost (products st) (player_orders st) \<longrightarrow>
            render_step_6_order clicked st = Inr (Some InsufficientFunds, st))
       \<and> (batch_cost (products st) (player_orders st) \<le> cash st \<longrightarrow>
            (\<exists>msg st'. render_step_6_order True st = Inr (msg, st')
               \<and> cash st' = cash st - batch_cost (products st) (player_orders st)
               \<and> (\<forall>k q p. (k, q) \<in> set (player_orders st) \<and> 0 < q \<and> map_of (products st) k = Some p \<longrightarrow>
                     map_of (pending_orders st') k =
                       Some \<lparr>quantity = q, days_remaining = lead_time p,
                             order_cost = real_of_int q * cost p\<rparr>)))"
proof (intro conjI impI)
  assume short: "cash st < batch_cost (products st) (player_orders st)"
  note pos = batch_cost_positive_lines [OF assms(2), of "products st"]
  have "filter (\<lambda>item. 0 < snd item) (player_orders st) \<noteq> []"
  proof
    assume "filter (\<lambda>item. 0 < snd item) (player_orders st) = []"
    with pos have "batch_cost (products st) (player_orders st) = 0" by (simp add: batch_cost_def)
    with short assms(4) show False by simp
  qed
  from step6_insufficient [OF assms(1) this] short pos
  show "render_step_6_order clicked st = Inr (Some InsufficientFunds, st)" by simp
next
  assume "batch_cost (products st) (player_orders st) \<le> cash st"
  from step6_submitted [OF assms(1,2,3) this]
  show "\<exists>msg st'. render_step_6_order True st = Inr (msg, st')
               \<and> cash st' = cash st - batch_cost (products st) (player_orders st)
               \<and> (\<forall>k q p. (k, q) \<in> set (player_orders st) \<and> 0 < q \<and> map_of (products st) k = Some p \<longrightarrow>
                     map_of (pending_orders st') k =
                       Some \<lparr>quantity = q, days_remaining = lead_time p,
                             order_cost = real_of_int q * cost p\<rparr>)"
    by blast
qed

theorem order_batch_atomic_witness:
  "render_step_6_order True (initialize_game\<lparr>cash := 40, player_orders := [(''WATER'', 50)]\<rparr>)
     = Inr (Some InsufficientFunds, initialize_game\<lparr>cash := 40, player_orders := [(''WATER'', 50)]\<rparr>)
   \<and> (\<exists>msg st'. render_step_6_order True (initialize_game\<lparr>player_orders := [(''WATER'', 50)]\<rparr>) = Inr (msg, st')
         \<and> cash st' = 9950
         \<and> map_of (pending_orders st') ''WATER'' = Some \<lparr>quantity = 50, days_remaining = 3, order_cost = 50\<rparr>)"
proof
  have c: "batch_cost create_products [(''WATER'', 50)] = 50"
    by (simp add: batch_cost_def map_of_create_products)
  show "render_step_6_order True (initialize_game\<lparr>cash := 40, player_orders := [(''WATER'', 50)]\<rparr>)
     = Inr (Some InsufficientFunds, initialize_game\<lparr>cash := 40, player_orders := [(''WATER'', 50)]\<rparr>)"
    using order_batch_atomic [of "initialize_game\<lparr>cash := 40, player_orders := [(''WATER'', 50)]\<rparr>" True]
    by (simp add: initialize_game_def c) (simp add: create_products_def)
  from order_batch_atomic [of "initialize_game\<lparr>player_orders := [(''WATER'', 50)]\<rparr>" True]
  obtain msg st' where "render_step_6_order True (initialize_game\<lparr>player_orders := [(''WATER'', 50)]\<rparr>) = Inr (msg, st')"
    "cash st' = 9950"
    "\<forall>k q p. (k, q) \<in> set [(''WATER'', 50::int)] \<and> 0 < q \<and> map_of create_products k = Some p \<longrightarrow>
                     map_of (pending_orders st') k =
                       Some \<lparr>quantity = q, days_remaining = lead_time p,
                             order_cost = real_of_int q * cost p\<rparr>"
    by (simp add: initialize_game_def c) (auto simp add: create_products_def)
  with map_of_create_products(1)
  show "\<exists>msg st'. render_step_6_order True (initialize_game\<lparr>player_orders := [(''WATER'', 50)]\<rparr>) = Inr (msg, st')
         \<and> cash st' = 9950
         \<and> map_of (pending_orders st') ''WATER'' = Some \<lparr>quantity = 50, days_remaining = 3, order_cost = 50\<rparr>"
    by fastforce
qed

section \<open>The life of an order\<close>

text \<open>
  C5. An order of quantity \<open>Q\<close> submitted for a product with lead time \<open>L \<ge> 1\<close>:
  after exactly \<open>L\<close> simulated days the stock of the product is its stock at
  submission, less the units sold in those days, plus exactly \<open>Q\<close>, and the pending
  order is gone (so it cannot be credited again); after only \<open>L - 1\<close> days the order
  is still pending, with one day to go, and the stock is the stock at submission less
  the units sold, with nothing of \<open>Q\<close> added. The days run without error.
\<close>

theorem order_lifecycle:
  assumes "session_ok st"
    and "set (map fst (player_orders st)) \<subseteq> set (map fst (products st))"
    and "\<forall>item \<in> set (player_orders st). 0 \<le> snd item"
    and "distinct (map fst (player_orders st))"
    and "batch_cost (products st) (player_orders st) \<le> cash st"
    and "(k, q) \<in> set (player_orders st)" and "0 < q"
    and "map_of (products st) k = Some p" and "1 \<le> lead_time p"
  shows "\<exists>msg st1. render_step_6_order True st = Inr (msg, st1)
     \<and> (\<forall>ds. int (length ds) = lead_time p \<longrightarrow>
          (\<exists>reps st'. run_days ds st1 = Inr (reps, st')
             \<and> stock_of st' k = Some (current_stock p - sold k reps + q)
             \<and> map_of (pending_orders st') k = None))
     \<and> (\<forall>ds. int (length ds) = lead_time p - 1 \<longrightarrow>
          (\<exists>reps st'. run_days ds st1 = Inr (reps, st')
             \<and> stock_of st' k = Some (current_stock p - sold k reps)
             \<and> map_of (pending_orders st') k =
                  Some \<lparr>quantity = q, days_remaining = 1, order_cost = real_of_int q * cost p\<rparr>))"
proof -
  from submitted_order_run [OF assms] obtain msg st1 where
    r: "render_step_6_order True st = Inr (msg, st1)"
    and full: "\<forall>ds. int (length ds) = lead_time p \<longrightarrow>
          (\<exists>reps st'. run_days ds st1 = Inr (reps, st')
             \<and> stock_of st' k = Some (current_stock p - sold k reps + q)
             \<and> map_of (pending_orders st') k = None)"
    and part: "\<forall>ds. int (length ds) < lead_time p \<longrightarrow>
          (\<exists>reps st'. run_days ds st1 = Inr (reps, st')
             \<and> stock_of st' k = Some (current_stock p - sold k reps)
             \<and> map_of (pending_orders st') k =
                  Some \<lparr>quantity = q, days_remaining = lead_time p - int (length ds),
                        order_cost = real_of_int q * cost p\<rparr>)"
    by blast
  have "\<exists>reps st'. run_days ds st1 = Inr (reps, st')
             \<and> stock_of st' k = Some (current_stock p - sold k reps)
             \<and> map_of (pending_orders st') k =
                  Some \<lparr>quantity = q, days_remaining = 1, order_cost = real_of_int q * cost p\<rparr>"
    if "int (length ds) = lead_time p - 1" for ds
    using part [rule_format, of ds] that by simp
  with r full show ?thesis by blast
qed

theorem order_lifecycle_witness:
  "\<exists>msg st1. render_step_6_order True (initialize_game\<lparr>player_orders := [(''MILK'', 10)]\<rparr>) = Inr (msg, st1)
     \<and> (\<exists>reps st'. run_days [\<lambda>_. 1, \<lambda>_. 1] st1 = Inr (reps, st')
             \<and> stock_of st' ''MILK'' = Some (50 - sold ''MILK'' reps + 10)
             \<and> map_of (pending_orders st') ''MILK'' = None)
     \<and> (\<exists>reps st'. run_days [\<lambda>_. 1] st1 = Inr (reps, st')
             \<and> stock_of st' ''MILK'' = Some (50 - sold ''MILK'' reps)
             \<and> map_of (pending_orders st') ''MILK'' =
                  Some \<lparr>quantity = 10, days_remaining = 1, order_cost = 70\<rparr>)"
proof -
  let ?st = "initialize_game\<lparr>player_orders := [(''MILK'', 10)]\<rparr>"
  let ?milk = "\<lparr>ident = ''MILK'', name = ''milk'', icon = ''milk'',
        price = 12, cost = 7, current_stock = 50, daily_demand = 15,
        lead_time = 2, order_interval = 5\<rparr>"
  have h1: "session_ok ?st" by (simp add: initial_session_ok)
  have h2: "set (map fst (player_orders ?st)) \<subseteq> set (map fst (products ?st))"
    by (simp add: initialize_game_def create_products_def)
  have h3: "\<forall>item \<in> set (player_orders ?st). 0 \<le> snd item" by simp
  have h4: "distinct (map fst (player_orders ?st))" by simp
  have h5: "batch_cost (products ?st) (player_orders ?st) \<le> cash ?st"
    by (simp add: initialize_game_def batch_cost_def map_of_create_products)
  have h6: "(''MILK'', 10) \<in> set (player_orders ?st)" by simp
  have h7: "0 < (10::int)" by simp
  have h8: "map_of (products ?st) ''MILK'' = Some ?milk"
    by (simp add: initialize_game_def map_of_create_products)
  have h9: "1 \<le> lead_time ?milk" by simp
  from order_lifecycle [OF h1 h2 h3 h4 h5 h6 h7 h8 h9]
  obtain msg st1 where
    r: "render_step_6_order True ?st = Inr (msg, st1)"
    and a: "\<And>ds. int (length ds) = lead_time ?milk \<Longrightarrow>
          (\<exists>reps st'. run_days ds st1 = Inr (reps, st')
             \<and> stock_of st' ''MILK'' = Some (current_stock ?milk - sold ''MILK'' reps + 10)
             \<and> map_of (pending_orders st') ''MILK'' = None)"
    and b: "\<And>ds. int (length ds) = lead_time ?milk - 1 \<Longrightarrow>
          (\<exists>reps st'. run_days ds st1 = Inr (reps, st')
             \<and> stock_of st' ''MILK'' = Some (current_stock ?milk - sold ''MILK'' reps)
             \<and> map_of (pending_orders st') ''MILK'' =
                  Some \<lparr>quantity = 10, days_remaining = 1, order_cost = real_of_int 10 * cost ?milk\<rparr>)"
    by blast
  from a [of "[\<lambda>_. 1, \<lambda>_. 1]"] b [of "[\<lambda>_. 1]"] r show ?thesis by simp
qed

section \<open>An order on top of an order\<close>

text \<open>
  C10. A positive order submitted for a product that already has an order in
  transit: the submission succeeds and the dictionary entry of the product is the
  new order (quantity, lead time and cost of the new order), so the old order is
  gone; the cash is debited by the full cost of the batch, which depends on the
  catalogue and the new quantities only, so nothing of the old order's cost comes
  back; in the days before the new order arrives the stock only falls by the sales,
  and on arrival the stock receives the new quantity only.
\<close>

theorem second_order_replaces_first:
  assumes "session_ok st"
    and "set (map fst (player_orders st)) \<subseteq> set (map fst (products st))"
    and "\<forall>item \<in> set (player_orders st). 0 \<le> snd item"
    and "distinct (map fst (player_orders st))"
    and "batch_cost (products st) (player_orders st) \<le> cash st"
    and "(k, q) \<in> set (player_orders st)" and "0 < q"
    and "map_of (products st) k = Some p" and "1 \<le> lead_time p"
    and "map_of (pending_orders st) k = Some old"
  shows "\<exists>msg st1. render_step_6_order True st = Inr (msg, st1)
     \<and> map_of (pending_orders st1) k =
          Some \<lparr>quantity = q, days_remaining = lead_time p, order_cost = real_of_int q * cost p\<rparr>
     \<and> cash st1 = cash st - batch_cost (products st) (player_orders st)
     \<and> (\<forall>ds. int (length ds) < lead_time p \<longrightarrow>
          (\<exists>reps st'. run_days ds st1 = Inr (reps, st')
             \<and> stock_of st' k = Some (current_stock p - sold k reps)))
     \<and> (\<forall>ds. int (length ds) = lead_time p \<longrightarrow>
          (\<exists>reps st'. run_days ds st1 = Inr (reps, st')
             \<and> stock_of st' k = Some (current_stock p - sold k reps + q)
             \<and> map_of (pending_orders st') k = None))"
  using submitted_order_run [OF assms(1-9)] by blast

theorem second_order_replaces_first_witness:
  "\<exists>msg st1. render_step_6_order True
        (initialize_game\<lparr>player_orders := [(''MILK'', 10)],
           pending_orders := [(''MILK'', \<lparr>quantity = 30, days_remaining = 1, order_cost = 210\<rparr>)]\<rparr>)
        = Inr (msg, st1)
     \<and> map_of (pending_orders st1) ''MILK'' = Some \<lparr>quantity = 10, days_remaining = 2, order_cost = 70\<rparr>
     \<and> cash st1 = 10000 - 70
     \<and> (\<exists>reps st'. run_days [\<lambda>_. 1] st1 = Inr (reps, st')
             \<and> stock_of st' ''MILK'' = Some (50 - sold ''MILK'' reps))
     \<and> (\<exists>reps st'. run_days [\<lambda>_. 1, \<lambda>_. 1] st1 = Inr (reps, st')
             \<and> stock_of st' ''MILK'' = Some (50 - sold ''MILK'' reps + 10)
             \<and> map_of (pending_orders st') ''MILK'' = None)"
proof -
  let ?st = "initialize_game\<lparr>player_orders := [(''MILK'', 10)],
           pending_orders := [(''MILK'', \<lparr>quantity = 30, days_remaining = 1, order_cost = 210\<rparr>)]\<rparr>"
  let ?milk = "\<lparr>ident = ''MILK'', name = ''milk'', icon = ''milk'',
        price = 12, cost = 7, current_stock = 50, daily_demand = 15,
        lead_time = 2, order_interval = 5\<rparr>"
  have h1: "session_ok ?st"
    by (simp add: session_ok_def initialize_game_def create_products_def create_sales_history_def)
  have h2: "set (map fst (player_orders ?st)) \<subseteq> set (map fst (products ?st))"
    by (simp add: initialize_game_def create_products_def)
  have h3: "\<forall>item \<in> set (player_orders ?st). 0 \<le> snd item" by simp
  have h4: "distinct (map fst (player_orders ?st))" by simp
  have c: "batch_cost (products ?st) (player_orders ?st) = 70"
    by (simp add: initialize_game_def batch_cost_def map_of_create_products)
  have h5: "batch_cost (products ?st) (player_orders ?st) \<le> cash ?st"
    unfolding c by (simp add: initialize_game_def)
  have h6: "(''MILK'', 10) \<in> set (player_orders ?st)" by simp
  have h7: "0 < (10::int)" by simp
  have h8: "map_of (products ?st) ''MILK'' = Some ?milk"
    by (simp add: initialize_game_def map_of_create_products)
  have h9: "1 \<le> lead_time ?milk" by simp
  have h10: "map_of (pending_orders ?st) ''MILK'' = Some \<lparr>quantity = 30, days_remaining = 1, order_cost = 210\<rparr>"
    by simp
  from second_order_replaces_first [OF h1 h2 h3 h4 h5 h6 h7 h8 h9 h10]
  obtain msg st1 where
    r: "render_step_6_order True ?st = Inr (msg, st1)"
    and pe: "map_of (pending_orders st1) ''MILK'' =
          Some \<lparr>quantity = 10, days_remaining = lead_time ?milk, order_cost = real_of_int 10 * cost ?milk\<rparr>"
    and ca: "cash st1 = cash ?st - batch_cost (products ?st) (player_orders ?st)"
    and b: "\<And>ds. int (length ds) < lead_time ?milk \<Longrightarrow>
          (\<exists>reps st'. run_days ds st1 = Inr (reps, st')
             \<and> stock_of st' ''MILK'' = Some (current_stock ?milk - sold ''MILK'' reps))"
    and a: "\<And>ds. int (length ds) = lead_time ?milk \<Longrightarrow>
          (\<exists>reps st'. run_days ds st1 = Inr (reps, st')
             \<and> stock_of st' ''MILK'' = Some (current_stock ?milk - sold ''MILK'' reps + 10)
             \<and> map_of (pending_orders st') ''MILK'' = None)"
    by blast
  have "cash st1 = 10000 - 70" unfolding ca c by (simp add: initialize_game_def)
  with a [of "[\<lambda>_. 1, \<lambda>_. 1]"] b [of "[\<lambda>_. 1]"] r pe show ?thesis by simp
qed

section \<open>The score\<close>

text \<open>
  C8. The score never decreases. A simulated day adds its score delta, which is a
  tenth of the day's profit when that profit is positive, plus 50 when no product
  stocked out that day (and only then), and this delta is never negative; a quiz
  answer adds 10 when it is right and nothing otherwise; entering quantities and the
  order page leave the score alone; so over any sequence of days, quiz answers,
  entered quantities and visits of the order page the final score is at least the
  initial one.
\<close>

theorem score_never_decreases:
  "(process_daily_sales draws st = Inr (rep, st') \<longrightarrow>
       score st' = score st + r_score_today rep
     \<and> r_score_today rep =
         (if 0 < r_profit rep then r_profit rep / 10 else 0) + (if r_stockouts rep = [] then 50 else 0)
     \<and> (r_stockouts rep = [] \<longleftrightarrow>
           (\<forall>item \<in> set (products st).
              \<not> fulfilled draws item < draw_demand (daily_demand (snd item)) (draws (fst item))))
     \<and> 0 \<le> r_score_today rep)
   \<and> score (submit_leadtime answer st) = score st + (if answer = AnswerBread then 10 else 0)
   \<and> score st \<le> score (submit_leadtime answer st)
   \<and> (run_events evs st = Inr st'' \<longrightarrow> score st \<le> score st'')"
proof (intro conjI impI)
  assume d: "process_daily_sales draws st = Inr (rep, st')"
  from day_score [OF d]
  show "score st' = score st + r_score_today rep"
    and "r_score_today rep =
         (if 0 < r_profit rep then r_profit rep / 10 else 0) + (if r_stockouts rep = [] then 50 else 0)"
    and "0 \<le> r_score_today rep"
    and "r_stockouts rep = [] \<longleftrightarrow>
           (\<forall>item \<in> set (products st).
              \<not> fulfilled draws item < draw_demand (daily_demand (snd item)) (draws (fst item)))"
    by blast+
next
  show "score (submit_leadtime answer st) = score st + (if answer = AnswerBread then 10 else 0)"
    by (simp add: submit_leadtime_def)
  show "score st \<le> score (submit_leadtime answer st)"
    by (simp add: submit_leadtime_def)
next
  assume "run_events evs st = Inr st''"
  then show "score st \<le> score st''" by (rule run_events_score)
qed

theorem score_never_decreases_witness:
  "\<exists>st''. run_events [DayEvent (\<lambda>_. 1), QuizEvent AnswerBread, QuizEvent AnswerMilk] initialize_game = Inr st''
      \<and> score st'' = 143 / 2 + 10
      \<and> score initialize_game \<le> score st''"
proof -
  note day = first_day_unit_draws
  from day obtain st'' where
    run: "run_events [DayEvent (\<lambda>_. 1), QuizEvent AnswerBread, QuizEvent AnswerMilk] initialize_game = Inr st''"
    and sc: "score st'' = 143 / 2 + 10"
    by (simp add: submit_leadtime_def)
  from score_never_decreases [of "\<lambda>_. 1" initialize_game _ _ AnswerBread
      "[DayEvent (\<lambda>_. 1), QuizEvent AnswerBread, QuizEvent AnswerMilk]" st''] run
  have "score initialize_game \<le> score st''" by blast
  with run sc show ?thesis by blast
qed

section \<open>Cash over a day\<close>

text \<open>
  C9. One run of the daily simulation on a catalogue in which every unit price is at
  least the unit cost, and every stock is non-negative (as the data model has it),
  never decreases the cash: the cash grows by the day's profit, the profit is the sum
  over the products of the units sold times the margin (price less cost), and that
  sum is non-negative. The cost of orders is debited by the order page, not here.
\<close>

theorem daily_cash_never_decreases:
  assumes "process_daily_sales draws st = Inr (rep, st')"
    and "\<forall>item \<in> set (products st).
           cost (snd item) \<le> price (snd item) \<and> 0 \<le> current_stock (snd item)"
  shows "cash st' = cash st + r_profit rep
       \<and> r_profit rep =
           (\<Sum>item\<leftarrow>products st.
              real_of_int (fulfilled draws item) * (price (snd item) - cost (snd item)))
       \<and> 0 \<le> r_profit rep
       \<and> cash st \<le> cash st'"
proof -
  from assms(1) have c: "cash st' = cash st + r_profit rep"
    by (rule process_daily_sales_cases)
  note p = day_profit [OF assms(1)]
  have "0 \<le> real_of_int (fulfilled draws item) * (price (snd item) - cost (snd item))"
    if "item \<in> set (products st)" for item
  proof -
    from assms(2) that have "cost (snd item) \<le> price (snd item)" "0 \<le> current_stock (snd item)"
      by simp_all
    with fulfilled_nonneg [of item draws] show ?thesis by simp
  qed
  then have "0 \<le> r_profit rep" unfolding p by (intro sum_list_nonneg) auto
  with c p show ?thesis by simp
qed

theorem daily_cash_never_decreases_witness:
  "\<exists>rep st'. process_daily_sales (\<lambda>_. 1) initialize_game = Inr (rep, st')
      \<and> r_profit rep = 215 \<and> cash st' = 10215 \<and> cash initialize_game \<le> cash st'"
proof -
  have h: "\<forall>item \<in> set (products initialize_game).
           cost (snd item) \<le> price (snd item) \<and> 0 \<le> current_stock (snd item)"
    by (simp add: initialize_game_def create_products_def)
  from daily_cash_never_decreases [OF first_day_unit_draws h] first_day_unit_draws
  show ?thesis by simp
qed

section \<open>The demand draw\<close>




section \<open>The reorder point\<close>


section \<open>The service level is not checked\<close>




section \<open>Monotonicity of the safety stock\<close>




end
